theory Spec2Isabelle
  imports Main
begin

section \<open>Calendar dates\<close>

text \<open>
  The planner of \<^verbatim>\<open>server/storage.ts\<close> handles JavaScript \<^verbatim>\<open>Date\<close> objects. It builds them
  from a date-only string (\<^verbatim>\<open>new Date(job.materialArrivesDate)\<close>), from another \<^verbatim>\<open>Date\<close>
  and from a year, a month and a day; it reads them through the local-time getters only
  (\<^verbatim>\<open>getDay\<close>, \<^verbatim>\<open>getDate\<close>, \<^verbatim>\<open>getMonth\<close>, \<^verbatim>\<open>getFullYear\<close>) and changes them through
  \<^verbatim>\<open>setDate\<close> only, which keeps the local time of day. A \<^verbatim>\<open>Date\<close> is therefore modelled
  by its local civil day: the number of days since 1970-01-01 (a Thursday) in the
  proleptic Gregorian calendar. The time zone enters where a \<^verbatim>\<open>Date\<close> is built from a
  string (\<open>dateOfString\<close> below). A change of the offset between two days (daylight
  saving) does not move a local civil day and is not modelled; neither is the range
  limit of \<^verbatim>\<open>Date\<close>.
\<close>

type_synonym date = int

text \<open>\<^verbatim>\<open>Date.prototype.getDay\<close>: 0 is Sunday, 1 is Monday, ..., 6 is Saturday.\<close>

definition getDay :: "date \<Rightarrow> int" where
  "getDay d = (d + 4) mod 7"

text \<open>
  The civil fields of a day number in the proleptic Gregorian calendar: the year is
  found by walking whole years from 1970, the month and the day of the month by walking
  the months of that year.
\<close>

definition isLeapYear :: "int \<Rightarrow> bool" where
  "isLeapYear y = (y mod 4 = 0 \<and> (y mod 100 \<noteq> 0 \<or> y mod 400 = 0))"

definition daysInYear :: "int \<Rightarrow> int" where
  "daysInYear y = (if isLeapYear y then 366 else 365)"

function yearOfDay :: "int \<Rightarrow> int \<Rightarrow> int \<times> int" where
  "yearOfDay y z =
     (if z < 0 then yearOfDay (y - 1) (z + daysInYear (y - 1))
      else if daysInYear y \<le> z then yearOfDay (y + 1) (z - daysInYear y)
      else (y, z))"
  by pat_completeness auto
termination
  by (relation "measure (\<lambda>(y, z). if z < 0 then nat (- z) + 366 else nat z)")
     (auto simp: daysInYear_def split: if_splits)

declare yearOfDay.simps [simp del]

definition monthLengths :: "int \<Rightarrow> int list" where
  "monthLengths y =
     [31, if isLeapYear y then 29 else 28, 31, 30, 31, 30, 31, 31, 30, 31, 30, 31]"

fun monthOfDay :: "int list \<Rightarrow> int \<Rightarrow> int \<Rightarrow> int \<times> int" where
  "monthOfDay [] m z = (m, z + 1)"
| "monthOfDay (l # ls) m z = (if z < l \<or> ls = [] then (m, z + 1) else monthOfDay ls (m + 1) (z - l))"

definition civil_from_days :: "date \<Rightarrow> int \<times> int \<times> int" where
  "civil_from_days z =
     (case yearOfDay 1970 z of
        (y, doy) \<Rightarrow> (case monthOfDay (monthLengths y) 1 doy of (m, d) \<Rightarrow> (y, m, d)))"

definition getFullYear :: "date \<Rightarrow> int" where
  "getFullYear d = fst (civil_from_days d)"

text \<open>\<^verbatim>\<open>Date.prototype.getMonth\<close> counts from 0 (January).\<close>

definition getMonth :: "date \<Rightarrow> int" where
  "getMonth d = fst (snd (civil_from_days d)) - 1"

definition getDate :: "date \<Rightarrow> int" where
  "getDate d = snd (snd (civil_from_days d))"

text \<open>
  \<^verbatim>\<open>Date.prototype.setDate(x)\<close> sets the day of the month relative to the first day of
  the current month; values outside the month roll over into the neighbouring months.
\<close>

definition setDate :: "date \<Rightarrow> int \<Rightarrow> date" where
  "setDate d x = d + (x - getDate d)"

text \<open>
  \<^verbatim>\<open>new Date(year, monthIndex, day)\<close>, which reads its arguments in local time. The day
  number is that of ECMAScript's \<^verbatim>\<open>MakeDay\<close>: the first day of the year, plus the
  lengths of the months before \<open>monthIndex\<close> (months outside 0..11 carry into the
  year), plus the day of the month. The constructor reads a year from 0 to 99 as 1900
  to 1999.
\<close>

definition dayFromYear :: "int \<Rightarrow> int" where
  "dayFromYear y =
     365 * (y - 1970) + (y - 1969) div 4 - (y - 1901) div 100 + (y - 1601) div 400"

definition makeDay :: "int \<Rightarrow> int \<Rightarrow> int \<Rightarrow> date" where
  "makeDay year month dt =
     (let ym = year + month div 12;
          mn = month mod 12
      in dayFromYear ym + sum_list (take (nat mn) (monthLengths ym)) + dt - 1)"

definition newDate :: "int \<Rightarrow> int \<Rightarrow> int \<Rightarrow> date" where
  "newDate year monthIndex day =
     makeDay (if 0 \<le> year \<and> year \<le> 99 then 1900 + year else year) monthIndex day"

text \<open>
  \<^verbatim>\<open>new Date(s)\<close> for a date-only string \<^verbatim>\<open>YYYY-MM-DD\<close>, the form in which the driver returns
  a \<^verbatim>\<open>date\<close> column. The string is given by the day number \<open>day\<close> of the calendar date it
  names. ECMAScript reads a date-only string as midnight UTC of that date; the code then
  reads the \<^verbatim>\<open>Date\<close> in local time. \<open>tz\<close> is the offset of local time from UTC at that
  instant, in milliseconds (positive east of Greenwich, negative west of it), and the
  result is the local civil day of the instant: for an offset of less than a day, the
  day named by the string when \<open>0 \<le> tz\<close> and the day before it when \<open>tz < 0\<close>.
\<close>

definition msPerDay :: int where
  "msPerDay = 86400000"

definition dateOfString :: "int \<Rightarrow> int \<Rightarrow> date" where
  "dateOfString tz day = (day * msPerDay + tz) div msPerDay"

subsection \<open>Number formatting\<close>

definition digitChar :: "nat \<Rightarrow> char" where
  "digitChar n = ''0123456789'' ! n"

fun digitsOf :: "nat \<Rightarrow> string" where
  "digitsOf n = (if n < 10 then [digitChar n] else digitsOf (n div 10) @ [digitChar (n mod 10)])"

declare digitsOf.simps [simp del]

text \<open>\<^verbatim>\<open>String(n)\<close> and template interpolation of an integer.\<close>

definition numberToString :: "int \<Rightarrow> string" where
  "numberToString i = (if i < 0 then CHR ''-'' # digitsOf (nat (- i)) else digitsOf (nat i))"

text \<open>\<^verbatim>\<open>s.padStart(n, '0')\<close>.\<close>

definition padStart :: "nat \<Rightarrow> string \<Rightarrow> string" where
  "padStart n s = replicate (n - length s) CHR ''0'' @ s"

subsection \<open>The week bucketer and the business-day calendar\<close>

text \<open>
  \<^verbatim>\<open>getWeekStart\<close> (storage.ts, lines 653-666). \<open>weekStartDate\<close> is the \<^verbatim>\<open>Date\<close> held by
  the local variable \<^verbatim>\<open>weekStart\<close> after \<^verbatim>\<open>setDate(diff)\<close>: the argument is first rebuilt
  from its own year, month and day (line 655). \<^verbatim>\<open>setHours(0, 0, 0, 0)\<close> leaves the civil
  day unchanged.
\<close>

definition weekStartDate :: "date \<Rightarrow> date" where
  "weekStartDate d =
     (let weekStart = newDate (getFullYear d) (getMonth d) (getDate d);
          day = getDay weekStart;
          diff = getDate weekStart - day + (if day = 0 then - 6 else 1)
      in setDate weekStart diff)"

definition formatDate :: "date \<Rightarrow> string" where
  "formatDate weekStart =
     (let yyyy = getFullYear weekStart;
          mm = padStart 2 (numberToString (getMonth weekStart + 1));
          dd = padStart 2 (numberToString (getDate weekStart))
      in numberToString yyyy @ ''-'' @ mm @ ''-'' @ dd)"

definition getWeekStart :: "date \<Rightarrow> string" where
  "getWeekStart d = formatDate (weekStartDate d)"

text \<open>
  \<^verbatim>\<open>addBusinessDays\<close> (storage.ts, lines 668-687). The loop advances one calendar day
  per round and counts the day when it is not a Saturday or a Sunday.
\<close>

definition weekendAhead :: "date \<Rightarrow> nat" where
  "weekendAhead d = (if getDay (d + 1) = 6 then 2 else if getDay (d + 1) = 0 then 1 else 0)"

function addBusinessDaysLoop :: "int \<Rightarrow> date \<Rightarrow> int \<Rightarrow> date" where
  "addBusinessDaysLoop businessDays result daysAdded =
     (if daysAdded < businessDays then
        (let result' = setDate result (getDate result + 1);
             dayOfWeek = getDay result'
         in addBusinessDaysLoop businessDays result'
              (if dayOfWeek \<noteq> 0 \<and> dayOfWeek \<noteq> 6 then daysAdded + 1 else daysAdded))
      else result)"
  by pat_completeness auto
termination
proof (relation "measure (\<lambda>(n, d, a). 3 * nat (n - a) + weekendAhead d)", goal_cases)
  case 1
  show ?case by simp
next
  case (2 businessDays result daysAdded x xa)
  then show ?case
    by (auto simp: setDate_def weekendAhead_def getDay_def) presburger+
qed

declare addBusinessDaysLoop.simps [simp del]

definition addBusinessDays :: "date \<Rightarrow> int \<Rightarrow> date" where
  "addBusinessDays startDate businessDays =
     (if businessDays = 0 then startDate
      else addBusinessDaysLoop businessDays startDate 0)"

section \<open>The data layer\<close>

text \<open>
  The tables of \<^verbatim>\<open>shared/schema.ts\<close> that the planner reads or writes, each a list of
  rows in insertion order. The serial \<^verbatim>\<open>id\<close> of a schedule row is not modelled: the
  planner never reads it. Integer columns are unbounded integers here; the 32-bit range
  of the database columns is not modelled. A \<^verbatim>\<open>date\<close> column, which the driver returns as
  the string \<^verbatim>\<open>YYYY-MM-DD\<close>, is given by the day number of the calendar date it names.
\<close>

record job =
  job_id :: int
  job_name :: string
  activityType :: string
  totalSamples :: int
  materialArrivesDate :: date
  deadlineDate :: date

record activityTypeRow =
  at_id :: int
  at_name :: string

record stage =
  stage_id :: int
  stage_name :: string
  stage_order :: int
  proceedWithTestQty :: "int option"
  releaseRemainingAtStageId :: "int option"

record activityTypeStage =
  ats_id :: int
  ats_activityTypeId :: int
  ats_stageId :: int
  ats_processingTimeDays :: int

record schedule =
  sch_jobId :: int
  sch_stageId :: int
  sch_weekStart :: string
  scheduledSamples :: int

record db =
  jobs :: "job list"
  activityTypes :: "activityTypeRow list"
  stages :: "stage list"
  activityTypeStages :: "activityTypeStage list"
  schedules :: "schedule list"

text \<open>A row of \<^verbatim>\<open>jobStagesData\<close>: the link row joined with its stage.\<close>

record jobStage =
  js_id :: int
  stageId :: int
  processingTimeDays :: int
  stage :: stage

datatype error =
    JobNotFound int
  | ActivityTypeNotFound string
  | NoStagesFound string
  | Deadlock
  | MaxIterationsExceeded
  | TypeError

text \<open>\<^verbatim>\<open>getJob\<close> (storage.ts, lines 124-127).\<close>

definition getJob :: "db \<Rightarrow> int \<Rightarrow> job option" where
  "getJob d jid = find (\<lambda>j. job_id j = jid) (jobs d)"

text \<open>
  The stage graph loader (storage.ts, lines 752-768): the link rows of the activity type,
  inner-joined with the stages on the stage id, ordered by the stage's \<^verbatim>\<open>order\<close>. Rows of
  equal \<^verbatim>\<open>order\<close> keep their table order here (SQL leaves their order open).
\<close>

definition loadJobStages :: "db \<Rightarrow> int \<Rightarrow> jobStage list" where
  "loadJobStages d atId =
     sort_key (\<lambda>r. stage_order (stage r))
       (concat (map (\<lambda>ats. map (\<lambda>s. \<lparr>js_id = ats_id ats, stageId = ats_stageId ats,
                                      processingTimeDays = ats_processingTimeDays ats, stage = s\<rparr>)
                              (filter (\<lambda>s. stage_id s = ats_stageId ats) (stages d)))
                    (filter (\<lambda>ats. ats_activityTypeId ats = atId) (activityTypeStages d))))"

text \<open>\<^verbatim>\<open>scheduleQuantityForWeek\<close> (storage.ts, lines 689-731).\<close>

definition sameKey :: "int \<Rightarrow> int \<Rightarrow> string \<Rightarrow> schedule \<Rightarrow> bool" where
  "sameKey jid sid w r = (sch_jobId r = jid \<and> sch_stageId r = sid \<and> sch_weekStart r = w)"

definition scheduleQuantityForWeek ::
    "int \<Rightarrow> int \<Rightarrow> string \<Rightarrow> int \<Rightarrow> schedule list \<Rightarrow> schedule list" where
  "scheduleQuantityForWeek jid sid w quantity rows =
     (case filter (sameKey jid sid w) rows of
        [] \<Rightarrow> rows @ [\<lparr>sch_jobId = jid, sch_stageId = sid, sch_weekStart = w,
                       scheduledSamples = quantity\<rparr>]
      | existingSchedule # _ \<Rightarrow>
          map (\<lambda>r. if sameKey jid sid w r
                   then r\<lparr>scheduledSamples := scheduledSamples existingSchedule + quantity\<rparr>
                   else r) rows)"

section \<open>The batch scheduler\<close>

record batch =
  qty :: int
  lastScheduledStage :: "int option"
  held :: bool
  schedulingCompleted :: bool
  lastScheduledDate :: "date option"
  releaseQtyHeldAtStage :: "int option"

text \<open>\<^verbatim>\<open>Array.prototype.findIndex\<close>: the first index that satisfies the test, or -1.\<close>

fun findIndex :: "('a \<Rightarrow> bool) \<Rightarrow> 'a list \<Rightarrow> int" where
  "findIndex P [] = - 1"
| "findIndex P (x # xs) =
     (if P x then 0 else (let r = findIndex P xs in if r < 0 then - 1 else r + 1))"

text \<open>Array indexing: \<^verbatim>\<open>xs[i]\<close> is \<^verbatim>\<open>undefined\<close> (here \<open>None\<close>) outside the array.\<close>

definition at :: "'a list \<Rightarrow> int \<Rightarrow> 'a option" where
  "at xs i = (if 0 \<le> i \<and> i < int (length xs) then Some (xs ! nat i) else None)"

text \<open>
  The sort of lines 856-860. \<^verbatim>\<open>Array.prototype.sort\<close> is stable, and the comparator
  orders by the \<^verbatim>\<open>held\<close> flag alone: the batches that are not held come first, each
  group in its previous order.
\<close>

definition sortBatches :: "batch list \<Rightarrow> batch list" where
  "sortBatches bs = filter (\<lambda>b. \<not> held b) bs @ filter held bs"

definition maxIterations :: int where
  "maxIterations = 100"

text \<open>
  The first half of the loop body (lines 897-990) for the batch at index \<open>i\<close>, which is
  neither held nor completed: find the next stage and the date, split the quantity,
  write the schedule row, update the batch and push the held remainder. Reading a field
  of \<^verbatim>\<open>undefined\<close> throws a \<^verbatim>\<open>TypeError\<close>. The result carries the variable \<^verbatim>\<open>weekStart\<close>
  for the release check that follows.
\<close>

definition scheduleBatch ::
    "int \<Rightarrow> int \<Rightarrow> job \<Rightarrow> jobStage list \<Rightarrow> nat \<Rightarrow> batch list \<Rightarrow> schedule list
      \<Rightarrow> schedule list \<times> (error + batch list \<times> string)" where
  "scheduleBatch tz jobId jb jobStagesData i batches rows =
     (let batch = batches ! i;
          previousStageIndex =
            (case lastScheduledStage batch of
               None \<Rightarrow> 0
             | Some l \<Rightarrow> findIndex (\<lambda>s. stageId s = l) jobStagesData)
      in case (case lastScheduledStage batch of
                 None \<Rightarrow> Some 0
               | Some l \<Rightarrow> map_option processingTimeDays (at jobStagesData previousStageIndex)) of
           None \<Rightarrow> (rows, Inl TypeError)
         | Some processingTimeForPreviousStage \<Rightarrow>
             (let calculateNextSchedulingDateFrom =
                    (case lastScheduledDate batch of
                       None \<Rightarrow> dateOfString tz (materialArrivesDate jb)
                     | Some d \<Rightarrow> d);
                  previousStageId = lastScheduledStage batch;
                  nextStageIndex =
                    (case lastScheduledStage batch of
                       None \<Rightarrow> 0
                     | Some l \<Rightarrow> findIndex (\<lambda>s. stageId s = l) jobStagesData + 1)
              in case at jobStagesData nextStageIndex of
                   None \<Rightarrow> (rows, Inl TypeError)
                 | Some nextStage \<Rightarrow>
                     (let forDate = addBusinessDays calculateNextSchedulingDateFrom
                                      processingTimeForPreviousStage;
                          heldQty =
                            (case proceedWithTestQty (stage nextStage) of
                               None \<Rightarrow> 0
                             | Some p \<Rightarrow> max (qty batch - p) 0);
                          schedulingQty =
                            (case proceedWithTestQty (stage nextStage) of
                               None \<Rightarrow> qty batch
                             | Some p \<Rightarrow> min p (qty batch));
                          weekStart = getWeekStart forDate;
                          rows' = scheduleQuantityForWeek jobId (stageId nextStage) weekStart
                                    schedulingQty rows;
                          batch' = batch
                            \<lparr>qty := schedulingQty,
                             lastScheduledStage := Some (stageId nextStage),
                             lastScheduledDate := Some forDate,
                             schedulingCompleted :=
                               (if nextStageIndex = int (length jobStagesData) - 1 then True
                                else schedulingCompleted batch)\<rparr>;
                          pushed =
                            (if heldQty \<noteq> 0
                             then [\<lparr>qty = heldQty, lastScheduledStage = previousStageId,
                                    held = True, schedulingCompleted = False,
                                    lastScheduledDate = None,
                                    releaseQtyHeldAtStage =
                                      releaseRemainingAtStageId (stage nextStage)\<rparr>]
                             else [])
                      in (rows', Inr (batches[i := batch'] @ pushed, weekStart)))))"

text \<open>
  The release check (lines 992-1030): a scan of all batches, in order, for the held
  batches whose release stage is the stage that \<open>batch\<close> (the batch just scheduled) has
  reached. The scan never changes \<open>batch\<close> itself, which is not held.
\<close>

fun releaseHeldBatches ::
    "int \<Rightarrow> jobStage list \<Rightarrow> batch \<Rightarrow> string \<Rightarrow> batch list \<Rightarrow> schedule list
      \<Rightarrow> schedule list \<times> (error + batch list)" where
  "releaseHeldBatches jobId jobStagesData batch weekStart [] rows = (rows, Inr [])"
| "releaseHeldBatches jobId jobStagesData batch weekStart (heldBatch # rest) rows =
     (if held heldBatch \<and> releaseQtyHeldAtStage heldBatch = lastScheduledStage batch then
        (let releaseToStageIndex =
               findIndex (\<lambda>s. Some (stageId s) = lastScheduledStage heldBatch) jobStagesData + 1
         in case at jobStagesData releaseToStageIndex of
              None \<Rightarrow> (rows, Inl TypeError)
            | Some releaseToStage \<Rightarrow>
                (let heldBatch' = heldBatch
                       \<lparr>held := False,
                        releaseQtyHeldAtStage := None,
                        lastScheduledDate := lastScheduledDate batch,
                        lastScheduledStage := Some (stageId releaseToStage),
                        schedulingCompleted :=
                          (if releaseToStageIndex = int (length jobStagesData) - 1 then True
                           else schedulingCompleted heldBatch)\<rparr>;
                     rows' = scheduleQuantityForWeek jobId (stageId releaseToStage) weekStart
                               (qty heldBatch) rows
                 in case releaseHeldBatches jobId jobStagesData batch weekStart rest rows' of
                      (rows'', Inl e) \<Rightarrow> (rows'', Inl e)
                    | (rows'', Inr rest') \<Rightarrow> (rows'', Inr (heldBatch' # rest'))))
      else
        (case releaseHeldBatches jobId jobStagesData batch weekStart rest rows of
           (rows'', Inl e) \<Rightarrow> (rows'', Inl e)
         | (rows'', Inr rest') \<Rightarrow> (rows'', Inr (heldBatch # rest'))))"

text \<open>
  The position of a batch in the pipeline: the index of the entry after its
  last-scheduled stage, 0 when it has none. Both the scheduling step (line 921) and the
  release check (line 1005) compute it with \<^verbatim>\<open>findIndex(...) + 1\<close>.
\<close>

definition nextStageIndexOf :: "jobStage list \<Rightarrow> batch \<Rightarrow> int" where
  "nextStageIndexOf jobStagesData b =
     findIndex (\<lambda>s. Some (stageId s) = lastScheduledStage b) jobStagesData + 1"

text \<open>
  One round of the \<^verbatim>\<open>for\<close> loop for a batch that is neither held nor completed (lines
  897-1030): the scheduling step, then the release check with the batch just scheduled
  and the \<^verbatim>\<open>weekStart\<close> just computed.
\<close>

definition processBatch ::
    "int \<Rightarrow> int \<Rightarrow> job \<Rightarrow> jobStage list \<Rightarrow> nat \<Rightarrow> batch list \<Rightarrow> schedule list
      \<Rightarrow> schedule list \<times> (error + batch list)" where
  "processBatch tz jobId jb jobStagesData i batches rows =
     (case scheduleBatch tz jobId jb jobStagesData i batches rows of
        (rows', Inl e) \<Rightarrow> (rows', Inl e)
      | (rows', Inr (batches', weekStart)) \<Rightarrow>
          releaseHeldBatches jobId jobStagesData (batches' ! i) weekStart batches' rows')"

text \<open>
  The \<^verbatim>\<open>for\<close> loop over the batches (lines 876-1036). The array grows while the loop
  runs, and a batch pushed and released in one round is itself processed later in the
  same pass, so the number of rounds is not bounded by the length at entry: the loop
  takes fuel, one unit per round, and \<open>None\<close> says the fuel ran out.
\<close>

fun forLoop ::
    "int \<Rightarrow> nat \<Rightarrow> int \<Rightarrow> job \<Rightarrow> jobStage list \<Rightarrow> nat \<Rightarrow> batch list \<Rightarrow> schedule list
      \<Rightarrow> (schedule list \<times> (error + batch list)) option" where
  "forLoop tz 0 jobId jb jobStagesData i batches rows =
     (if i < length batches then None else Some (rows, Inr batches))"
| "forLoop tz (Suc fuel) jobId jb jobStagesData i batches rows =
     (if i < length batches then
        (let batch = batches ! i in
         if held batch \<or> schedulingCompleted batch
         then forLoop tz fuel jobId jb jobStagesData (i + 1) batches rows
         else
           (case processBatch tz jobId jb jobStagesData i batches rows of
              (rows'', Inl e) \<Rightarrow> Some (rows'', Inl e)
            | (rows'', Inr batches'') \<Rightarrow>
                forLoop tz fuel jobId jb jobStagesData (i + 1) batches'' rows''))
      else Some (rows, Inr batches))"

text \<open>
  The \<^verbatim>\<open>while\<close> loop (lines 814-1059). \<^verbatim>\<open>progressMade\<close> is set to \<^verbatim>\<open>false\<close> at line 853
  and assigned nowhere else. The result is the rows written so far and either the error
  thrown or the final value of \<^verbatim>\<open>iterations\<close>.
\<close>

function whileLoop ::
    "int \<Rightarrow> nat \<Rightarrow> int \<Rightarrow> job \<Rightarrow> jobStage list \<Rightarrow> int \<Rightarrow> batch list \<Rightarrow> schedule list
      \<Rightarrow> (schedule list \<times> (error + int)) option" where
  "whileLoop tz fuel jobId jb jobStagesData iterations batches rows =
     (if list_ex (\<lambda>b. \<not> schedulingCompleted b) batches \<and> iterations < maxIterations then
        (let iterations' = iterations + 1;
             progressMade = False
         in case forLoop tz fuel jobId jb jobStagesData 0 (sortBatches batches) rows of
              None \<Rightarrow> None
            | Some (rows', Inl e) \<Rightarrow> Some (rows', Inl e)
            | Some (rows', Inr batches') \<Rightarrow>
                if \<not> progressMade \<and> iterations' > 10 then Some (rows', Inl Deadlock)
                else whileLoop tz fuel jobId jb jobStagesData iterations' batches' rows')
      else Some (rows, Inr iterations))"
  by pat_completeness auto
termination
  by (relation "measure (\<lambda>(tz, fuel, jobId, jb, st, iterations, batches, rows).
                           nat (maxIterations - iterations))") auto

declare whileLoop.simps [simp del]

text \<open>
  \<^verbatim>\<open>autoPlanJob\<close> (storage.ts, lines 733-1066). The result is the database after the call
  and either the error thrown or \<open>()\<close>. Nothing is rolled back when an error is thrown:
  the function opens no transaction. \<open>tz\<close> is the offset of the process's local time
  from UTC (see \<open>dateOfString\<close>) and \<open>fuel\<close> bounds the rounds of each pass of the batch
  loop.
\<close>

definition initialBatch :: "job \<Rightarrow> batch" where
  "initialBatch jb =
     \<lparr>qty = totalSamples jb, lastScheduledStage = None, held = False,
      schedulingCompleted = False, lastScheduledDate = None, releaseQtyHeldAtStage = None\<rparr>"

definition autoPlanJob :: "int \<Rightarrow> nat \<Rightarrow> db \<Rightarrow> int \<Rightarrow> (db \<times> (error + unit)) option" where
  "autoPlanJob tz fuel d jobId =
     (case getJob d jobId of
        None \<Rightarrow> Some (d, Inl (JobNotFound jobId))
      | Some jb \<Rightarrow>
          (case find (\<lambda>a. at_name a = activityType jb) (activityTypes d) of
             None \<Rightarrow> Some (d, Inl (ActivityTypeNotFound (activityType jb)))
           | Some activityTypeRow \<Rightarrow>
               (let jobStagesData = loadJobStages d (at_id activityTypeRow) in
                if length jobStagesData = 0
                then Some (d, Inl (NoStagesFound (activityType jb)))
                else
                  (let cleared = filter (\<lambda>r. sch_jobId r \<noteq> jobId) (schedules d) in
                   case whileLoop tz fuel jobId jb jobStagesData 0 [initialBatch jb] cleared of
                     None \<Rightarrow> None
                   | Some (rows, Inl e) \<Rightarrow> Some (d\<lparr>schedules := rows\<rparr>, Inl e)
                   | Some (rows, Inr iterations) \<Rightarrow>
                       if iterations \<ge> maxIterations
                       then Some (d\<lparr>schedules := rows\<rparr>, Inl MaxIterationsExceeded)
                       else Some (d\<lparr>schedules := rows\<rparr>, Inr ())))))"

section \<open>Notions used in the statements\<close>



text \<open>
  The shape \<^verbatim>\<open>YYYY-MM-DD\<close> of an ISO calendar date: four digits, a hyphen, two digits, a
  hyphen, two digits.
\<close>

definition isDigit :: "char \<Rightarrow> bool" where
  "isDigit c = (c \<in> set ''0123456789'')"

definition isIsoDateString :: "string \<Rightarrow> bool" where
  "isIsoDateString s =
     (length s = 10 \<and> s ! 4 = CHR ''-'' \<and> s ! 7 = CHR ''-'' \<and>
      list_all isDigit (take 4 s) \<and> list_all isDigit (take 2 (drop 5 s)) \<and>
      list_all isDigit (drop 8 s))"

text \<open>
  The ISO calendar date of a year, a month (1..12) and a day of the month, as the spec
  words it: the decimal digits of each, zero-padded to four, two and two places.
\<close>

definition isoDate :: "int \<Rightarrow> int \<Rightarrow> int \<Rightarrow> string" where
  "isoDate y m d =
     padStart 4 (digitsOf (nat y)) @ ''-'' @ padStart 2 (digitsOf (nat m)) @ ''-'' @
     padStart 2 (digitsOf (nat d))"

text \<open>
  The quantity scheduled for a job in a stage, summed over all weeks: the sum of the
  \<^verbatim>\<open>scheduledSamples\<close> of the job's rows for that stage.
\<close>

definition stageTotal :: "int \<Rightarrow> int \<Rightarrow> schedule list \<Rightarrow> int" where
  "stageTotal jid sid rows =
     sum_list (map scheduledSamples
       (filter (\<lambda>r. sch_jobId r = jid \<and> sch_stageId r = sid) rows))"

text \<open>
  A held batch is released by the batch just scheduled when its release-trigger stage
  is the stage that batch has reached (the test of lines 996-999).
\<close>

definition isReleasedBy :: "batch \<Rightarrow> batch \<Rightarrow> bool" where
  "isReleasedBy batch heldBatch =
     (held heldBatch \<and> releaseQtyHeldAtStage heldBatch = lastScheduledStage batch)"

text \<open>No held batch is marked completed: an invariant of the batch array.\<close>

definition heldNotCompleted :: "batch list \<Rightarrow> bool" where
  "heldNotCompleted bs = list_all (\<lambda>b. \<not> (held b \<and> schedulingCompleted b)) bs"

text \<open>
  The date for which a batch is scheduled next (lines 897-937): its last scheduled date,
  or the arrival date of the job as \<^verbatim>\<open>new Date\<close> reads it, plus the processing time of its last stage in business
  days (no wait before the first stage).
\<close>

definition scheduleDateOf :: "int \<Rightarrow> job \<Rightarrow> jobStage list \<Rightarrow> batch \<Rightarrow> date" where
  "scheduleDateOf tz jb jobStagesData b =
     addBusinessDays
       (case lastScheduledDate b of None \<Rightarrow> dateOfString tz (materialArrivesDate jb) | Some d \<Rightarrow> d)
       (case lastScheduledStage b of
          None \<Rightarrow> 0
        | Some l \<Rightarrow> processingTimeDays
                     (the (at jobStagesData (findIndex (\<lambda>s. stageId s = l) jobStagesData))))"

text \<open>
  The plan of a job: the rows that the planner writes, and its outcome, for a job given
  by its id, its quantity and its arrival date and for a pipeline, when it starts from
  no rows.
\<close>

definition planOf ::
    "int \<Rightarrow> nat \<Rightarrow> int \<Rightarrow> int \<Rightarrow> date \<Rightarrow> jobStage list
      \<Rightarrow> (schedule list \<times> (error + unit)) option" where
  "planOf tz fuel jobId quantity arrival jobStagesData =
     (let jb = \<lparr>job_id = jobId, job_name = [], activityType = [],
                totalSamples = quantity, materialArrivesDate = arrival,
                deadlineDate = arrival\<rparr>
      in case whileLoop tz fuel jobId jb jobStagesData 0 [initialBatch jb] [] of
           None \<Rightarrow> None
         | Some (rows, Inl e) \<Rightarrow> Some (rows, Inl e)
         | Some (rows, Inr iterations) \<Rightarrow>
             if iterations \<ge> maxIterations then Some (rows, Inl MaxIterationsExceeded)
             else Some (rows, Inr ()))"

section \<open>Example databases\<close>

text \<open>
  The rows the examples are built from: a stage \<open>i\<close> of order \<open>i\<close>, its link to activity
  type 1, job 1 of 15 samples, and a schedule row of job 1.
\<close>

definition exStage :: "int \<Rightarrow> int option \<Rightarrow> int option \<Rightarrow> stage" where
  "exStage i p r =
     \<lparr>stage_id = i, stage_name = ''Stage'', stage_order = i,
      proceedWithTestQty = p, releaseRemainingAtStageId = r\<rparr>"

definition exLink :: "int \<Rightarrow> int \<Rightarrow> activityTypeStage" where
  "exLink i t =
     \<lparr>ats_id = i, ats_activityTypeId = 1, ats_stageId = i, ats_processingTimeDays = t\<rparr>"

definition exJob :: "date \<Rightarrow> job" where
  "exJob arrival =
     \<lparr>job_id = 1, job_name = ''Job'', activityType = ''TEST'', totalSamples = 15,
      materialArrivesDate = arrival, deadlineDate = arrival + 90\<rparr>"

definition exRow :: "int \<Rightarrow> string \<Rightarrow> int \<Rightarrow> schedule" where
  "exRow s w q = \<lparr>sch_jobId = 1, sch_stageId = s, sch_weekStart = w, scheduledSamples = q\<rparr>"

text \<open>A row of the loaded pipeline of the examples: stage \<open>i\<close> with its processing time.\<close>

definition exPipe :: "int \<Rightarrow> int \<Rightarrow> int option \<Rightarrow> int option \<Rightarrow> jobStage" where
  "exPipe i t p r =
     \<lparr>js_id = i, stageId = i, processingTimeDays = t, stage = exStage i p r\<rparr>"

text \<open>A batch, by its six fields.\<close>

definition mkBatch ::
    "int \<Rightarrow> int option \<Rightarrow> bool \<Rightarrow> bool \<Rightarrow> date option \<Rightarrow> int option \<Rightarrow> batch" where
  "mkBatch q l h c d r =
     \<lparr>qty = q, lastScheduledStage = l, held = h, schedulingCompleted = c,
      lastScheduledDate = d, releaseQtyHeldAtStage = r\<rparr>"

text \<open>
  The worked example: 15 samples arriving on the day \<open>arrival\<close>, five stages of 5
  business days each, Stage 2 letting 2 samples proceed and releasing the rest when
  Stage 4 is reached. The test fixtures use Monday 2025-06-02, which is day 20241, and
  the test runner's scenario Monday 2025-06-09, which is day 20248.
\<close>

definition workedExample :: "date \<Rightarrow> db" where
  "workedExample arrival =
     \<lparr>jobs = [exJob arrival],
      activityTypes = [\<lparr>at_id = 1, at_name = ''TEST''\<rparr>],
      stages = [exStage 1 None None, exStage 2 (Some 2) (Some 4), exStage 3 None None,
                exStage 4 None None, exStage 5 None None],
      activityTypeStages = map (\<lambda>i. exLink i 5) [1, 2, 3, 4, 5],
      schedules = []\<rparr>"

text \<open>The pipeline that the loader returns for the worked example.\<close>

definition pipe5 :: "jobStage list" where
  "pipe5 = [exPipe 1 5 None None, exPipe 2 5 (Some 2) (Some 4), exPipe 3 5 None None,
            exPipe 4 5 None None, exPipe 5 5 None None]"

text \<open>The rows that the worked example is planned into, for an arrival on the day \<open>d\<close>.\<close>

definition workedExamplePlan :: "date \<Rightarrow> schedule list" where
  "workedExamplePlan d =
     [exRow 1 (getWeekStart d) 15,
      exRow 2 (getWeekStart (d + 7)) 2,
      exRow 3 (getWeekStart (d + 14)) 2,
      exRow 4 (getWeekStart (d + 21)) 2,
      exRow 2 (getWeekStart (d + 21)) 13,
      exRow 3 (getWeekStart (d + 28)) 13,
      exRow 5 (getWeekStart (d + 28)) 2,
      exRow 4 (getWeekStart (d + 35)) 13,
      exRow 5 (getWeekStart (d + 42)) 13]"

text \<open>Eleven stages in sequence, no hold anywhere, no waiting time.\<close>

definition elevenStageDb :: db where
  "elevenStageDb =
     \<lparr>jobs = [exJob 20241],
      activityTypes = [\<lparr>at_id = 1, at_name = ''TEST''\<rparr>],
      stages = map (\<lambda>i. exStage i None None) [1, 2, 3, 4, 5, 6, 7, 8, 9, 10, 11],
      activityTypeStages = map (\<lambda>i. exLink i 0) [1, 2, 3, 4, 5, 6, 7, 8, 9, 10, 11],
      schedules = []\<rparr>"

text \<open>The pipeline that the loader returns for it.\<close>

definition pipe11 :: "jobStage list" where
  "pipe11 = map (\<lambda>i. exPipe i 0 None None) [1, 2, 3, 4, 5, 6, 7, 8, 9, 10, 11]"

text \<open>
  Two stages, the second holding back all but 2 samples with no release stage set, and
  one schedule row of an earlier plan of the job.
\<close>

definition neverReleasedDb :: db where
  "neverReleasedDb =
     \<lparr>jobs = [exJob 20241],
      activityTypes = [\<lparr>at_id = 1, at_name = ''TEST''\<rparr>],
      stages = [exStage 1 None None, exStage 2 (Some 2) None],
      activityTypeStages = map (\<lambda>i. exLink i 5) [1, 2],
      schedules = [exRow 1 ''2025-05-26'' 15]\<rparr>"

text \<open>The pipeline that the loader returns for it.\<close>

definition pipe2 :: "jobStage list" where
  "pipe2 = [exPipe 1 5 None None, exPipe 2 5 (Some 2) None]"

text \<open>A job whose activity type is in no table.\<close>

definition unknownActivityDb :: db where
  "unknownActivityDb =
     \<lparr>jobs = [(exJob 20241)\<lparr>activityType := ''NONEXISTENT''\<rparr>],
      activityTypes = [\<lparr>at_id = 1, at_name = ''TEST''\<rparr>],
      stages = [exStage 1 None None],
      activityTypeStages = [exLink 1 5],
      schedules = [exRow 1 ''2025-05-26'' 15]\<rparr>"

text \<open>One stage, linked to the activity type of the job by two link rows.\<close>

definition duplicateLinkDb :: db where
  "duplicateLinkDb =
     \<lparr>jobs = [exJob 20241],
      activityTypes = [\<lparr>at_id = 1, at_name = ''TEST''\<rparr>],
      stages = [exStage 1 None None],
      activityTypeStages =
        [exLink 1 5, \<lparr>ats_id = 2, ats_activityTypeId = 1, ats_stageId = 1,
                      ats_processingTimeDays = 5\<rparr>],
      schedules = []\<rparr>"


section \<open>Notions used in the proofs\<close>

text \<open>
  Reading a formatted date back, used to show that distinct days have distinct
  formats: the value of a digit string, and the day number on which a year starts,
  counted from the start of year 0.
\<close>

definition digitValue :: "char \<Rightarrow> nat" where
  "digitValue c = of_char c - 48"

definition valueOfDigits :: "string \<Rightarrow> nat" where
  "valueOfDigits s = foldl (\<lambda>a c. 10 * a + digitValue c) 0 s"

definition yearStart :: "int \<Rightarrow> int" where
  "yearStart y = 365 * y + (y - 1) div 4 - (y - 1) div 100 + (y - 1) div 400"

text \<open>The job's rows have pairwise distinct (stage, week) keys.\<close>

definition keysUnique :: "int \<Rightarrow> schedule list \<Rightarrow> bool" where
  "keysUnique jid rows =
     distinct (map (\<lambda>r. (sch_stageId r, sch_weekStart r))
                 (filter (\<lambda>r. sch_jobId r = jid) rows))"

text \<open>
  The quantity that has not yet been scheduled into pipeline position \<open>k\<close>: the sum of
  the quantities of the batches whose next position is \<open>k\<close> or earlier.
\<close>

definition pendingAt :: "jobStage list \<Rightarrow> int \<Rightarrow> batch list \<Rightarrow> int" where
  "pendingAt st k bs =
     sum_list (map (\<lambda>b. if nextStageIndexOf st b \<le> k then qty b else 0) bs)"

text \<open>
  The invariant of the planner for a job of quantity \<open>Q\<close>: at every pipeline position,
  what is scheduled there plus what is still pending there is \<open>Q\<close>; and a completed
  batch is past the last position.
\<close>

definition planInv :: "jobStage list \<Rightarrow> int \<Rightarrow> int \<Rightarrow> batch list \<Rightarrow> schedule list \<Rightarrow> bool" where
  "planInv st jid Q bs rows =
     (keysUnique jid rows \<and>
      (\<forall>k < length st. stageTotal jid (stageId (st ! k)) rows + pendingAt st (int k) bs = Q) \<and>
      (\<forall>b \<in> set bs. schedulingCompleted b \<longrightarrow> nextStageIndexOf st b = int (length st)))"

section \<open>Fuel and the loops\<close>

text \<open>More fuel never changes a result that was reached.\<close>

lemma forLoop_fuel_mono:
  "forLoop tz fuel jobId jb st i bs rows = Some r \<Longrightarrow> forLoop tz (fuel + k) jobId jb st i bs rows = Some r"
proof (induction fuel arbitrary: i bs rows)
  case 0
  then show ?case by (cases k) (auto split: if_splits)
next
  case (Suc fuel)
  then show ?case
    by (auto simp: Let_def split: if_splits sum.splits prod.splits)
qed

lemma whileLoop_stop:
  "\<not> (list_ex (\<lambda>b. \<not> schedulingCompleted b) bs \<and> it < maxIterations) \<Longrightarrow>
     whileLoop tz fuel jobId jb st it bs rows = Some (rows, Inr it)"
  by (subst whileLoop.simps) auto

lemma whileLoop_step:
  "list_ex (\<lambda>b. \<not> schedulingCompleted b) bs \<and> it < maxIterations \<Longrightarrow>
     whileLoop tz fuel jobId jb st it bs rows =
       (case forLoop tz fuel jobId jb st 0 (sortBatches bs) rows of
          None \<Rightarrow> None
        | Some (rows', Inl e) \<Rightarrow> Some (rows', Inl e)
        | Some (rows', Inr bs') \<Rightarrow>
            if it + 1 > 10 then Some (rows', Inl Deadlock)
            else whileLoop tz fuel jobId jb st (it + 1) bs' rows')"
  by (subst whileLoop.simps) (auto simp: Let_def split: option.splits sum.splits prod.splits)

lemma whileLoop_fuel_mono:
  "whileLoop tz fuel jobId jb st it bs rows = Some r \<Longrightarrow> whileLoop tz (fuel + k) jobId jb st it bs rows = Some r"
proof (induction tz fuel jobId jb st it bs rows rule: whileLoop.induct)
  case (1 tz fuel jobId jb st it bs rows)
  show ?case
  proof (cases "list_ex (\<lambda>b. \<not> schedulingCompleted b) bs \<and> it < maxIterations")
    case False
    with "1.prems" show ?thesis
      by (simp add: whileLoop_stop)
  next
    case True
    show ?thesis
    proof (cases "forLoop tz fuel jobId jb st 0 (sortBatches bs) rows")
      case None
      with True "1.prems" show ?thesis
        by (simp add: whileLoop_step)
    next
      case (Some res)
      obtain rows' x where res: "res = (rows', x)" by (cases res)
      have more: "forLoop tz (fuel + k) jobId jb st 0 (sortBatches bs) rows = Some (rows', x)"
        using forLoop_fuel_mono [of tz fuel jobId jb st 0 "sortBatches bs" rows res k] Some res by simp
      show ?thesis
      proof (cases x)
        case (Inl e)
        with True Some res more "1.prems" show ?thesis
          by (simp add: whileLoop_step)
      next
        case (Inr bs')
        show ?thesis
        proof (cases "it + 1 > 10")
          case True
          with \<open>list_ex _ bs \<and> _\<close> Some res more Inr "1.prems" show ?thesis
            by (simp add: whileLoop_step)
        next
          case False
          have "whileLoop tz fuel jobId jb st (it + 1) bs' rows' = Some r"
            using True False Some res Inr "1.prems"
            by (simp add: whileLoop_step)
          then have "whileLoop tz (fuel + k) jobId jb st (it + 1) bs' rows' = Some r"
            using "1.IH" [OF True refl refl Some res [symmetric] Inr] False
            by simp
          with True False more Inr show ?thesis
            by (simp add: whileLoop_step)
        qed
      qed
    qed
  qed
qed

lemma autoPlanJob_fuel_mono:
  "autoPlanJob tz fuel d jobId = Some r \<Longrightarrow> autoPlanJob tz (fuel + k) d jobId = Some r"
  unfolding autoPlanJob_def
  by (auto simp: Let_def split: option.splits if_splits sum.splits prod.splits
           dest: whileLoop_fuel_mono [where k = k])

section \<open>The business-day calendar\<close>

lemma setDate_next [simp]: "setDate d (getDate d + 1) = d + 1"
  by (simp add: setDate_def)




section \<open>Errors raised before any write\<close>

text \<open>
  C10. When no job has the given id, \<^verbatim>\<open>autoPlanJob\<close> throws "Job with ID ... not found";
  the result does not depend on the activity types, the stages or the schedule rows, and
  the database is returned as it was.
\<close>

theorem autoPlanJob_job_not_found:
  "\<forall>j \<in> set (jobs d). job_id j \<noteq> jobId \<Longrightarrow>
     autoPlanJob tz fuel d jobId = Some (d, Inl (JobNotFound jobId))"
proof -
  assume "\<forall>j \<in> set (jobs d). job_id j \<noteq> jobId"
  then have "getJob d jobId = None"
    by (auto simp: getJob_def find_None_iff)
  then show ?thesis by (simp add: autoPlanJob_def)
qed

text \<open>The worked example's database holds job 1 only; planning job 7 changes nothing.\<close>

theorem autoPlanJob_job_not_found_witness:
  "autoPlanJob 0 0 (workedExample 20241) 7 = Some (workedExample 20241, Inl (JobNotFound 7))"
  using autoPlanJob_job_not_found [of "workedExample 20241" 7 0 0]
  by (simp add: workedExample_def exJob_def)

section \<open>The week bucketer\<close>

subsection \<open>The civil fields are a calendar date\<close>

lemma yearOfDay_range:
  "yearOfDay y z = (Y, doy) \<Longrightarrow> 0 \<le> doy \<and> doy < daysInYear Y"
proof (induction y z rule: yearOfDay.induct)
  case (1 y z)
  then show ?case
    by (subst (asm) (3) yearOfDay.simps) (auto split: if_splits)
qed

lemma monthOfDay_range:
  "0 \<le> z \<Longrightarrow> z < sum_list ls \<Longrightarrow> \<forall>l \<in> set ls. l \<le> 31 \<Longrightarrow> monthOfDay ls m z = (M, D) \<Longrightarrow>
     m \<le> M \<and> M < m + int (length ls) \<and> 1 \<le> D \<and> D \<le> 31"
proof (induction ls arbitrary: m z)
  case Nil
  then show ?case by simp
next
  case (Cons l ls)
  show ?case
  proof (cases "z < l \<or> ls = []")
    case True
    with Cons.prems show ?thesis by auto
  next
    case False
    with Cons.prems have "monthOfDay ls (m + 1) (z - l) = (M, D)" by simp
    from Cons.IH [OF _ _ _ this] False Cons.prems show ?thesis by auto
  qed
qed

lemma sum_monthLengths: "sum_list (monthLengths y) = daysInYear y"
  by (simp add: monthLengths_def daysInYear_def)

lemma civil_range:
  "civil_from_days z = (Y, M, D) \<Longrightarrow> 1 \<le> M \<and> M \<le> 12 \<and> 1 \<le> D \<and> D \<le> 31"
proof -
  assume a: "civil_from_days z = (Y, M, D)"
  obtain y doy where yd: "yearOfDay 1970 z = (y, doy)" by (cases "yearOfDay 1970 z")
  with a have md: "monthOfDay (monthLengths y) 1 doy = (M, D)"
    by (auto simp: civil_from_days_def split: prod.splits)
  have r: "0 \<le> doy" "doy < sum_list (monthLengths y)"
    using yearOfDay_range [OF yd] by (simp_all add: sum_monthLengths)
  have "\<forall>l \<in> set (monthLengths y). l \<le> 31" by (simp add: monthLengths_def)
  from monthOfDay_range [OF r this md] show ?thesis by (simp add: monthLengths_def)
qed

lemma getMonth_range: "0 \<le> getMonth d \<and> getMonth d \<le> 11"
  using civil_range [of d "fst (civil_from_days d)" "fst (snd (civil_from_days d))" "snd (snd (civil_from_days d))"]
  by (simp add: getMonth_def)

lemma getDate_range: "1 \<le> getDate d \<and> getDate d \<le> 31"
  using civil_range [of d "fst (civil_from_days d)" "fst (snd (civil_from_days d))" "snd (snd (civil_from_days d))"]
  by (simp add: getDate_def)

lemma isDigit_digitChar: "n < 10 \<Longrightarrow> isDigit (digitChar n)"
proof -
  assume "n < 10"
  then have "n \<in> {0, 1, 2, 3, 4, 5, 6, 7, 8, 9}" by auto
  then show ?thesis by (auto simp: isDigit_def digitChar_def)
qed

lemma digitsOf_all_digits: "list_all isDigit (digitsOf n)"
proof (induction n rule: digitsOf.induct)
  case (1 n)
  then show ?case
    by (subst digitsOf.simps) (auto simp: isDigit_digitChar)
qed

lemma digitsOf_length1: "n < 10 \<Longrightarrow> length (digitsOf n) = 1"
  by (subst digitsOf.simps) simp

lemma digitsOf_length2: "10 \<le> n \<Longrightarrow> n < 100 \<Longrightarrow> length (digitsOf n) = 2"
  by (subst digitsOf.simps) (simp add: digitsOf_length1)

lemma digitsOf_length3: "100 \<le> n \<Longrightarrow> n < 1000 \<Longrightarrow> length (digitsOf n) = 3"
  by (subst digitsOf.simps) (simp add: digitsOf_length2)

lemma digitsOf_length4: "1000 \<le> n \<Longrightarrow> n < 10000 \<Longrightarrow> length (digitsOf n) = 4"
  by (subst digitsOf.simps) (simp add: digitsOf_length3)

lemma pad2_shape:
  "n < 100 \<Longrightarrow> length (padStart 2 (digitsOf n)) = 2 \<and> list_all isDigit (padStart 2 (digitsOf n))"
proof (cases "n < 10")
  case True
  then show ?thesis
    by (simp add: padStart_def digitsOf_length1 digitsOf_all_digits isDigit_def)
next
  case False
  assume "n < 100"
  with False show ?thesis
    by (simp add: padStart_def digitsOf_length2 digitsOf_all_digits)
qed

lemma iso_shape:
  assumes "length y = 4" "length m = 2" "length d = 2"
    and "list_all isDigit y" "list_all isDigit m" "list_all isDigit d"
  shows "isIsoDateString (y @ ''-'' @ m @ ''-'' @ d)"
  using assms by (simp add: isIsoDateString_def nth_append)

subsection \<open>Distinct days have distinct formats\<close>

lemma digitValue_digitChar: "n < 10 \<Longrightarrow> digitValue (digitChar n) = n"
proof -
  assume "n < 10"
  then have "n \<in> {0, 1, 2, 3, 4, 5, 6, 7, 8, 9}" by auto
  then show ?thesis by (auto simp: digitValue_def digitChar_def)
qed

lemma valueOfDigits_snoc: "valueOfDigits (s @ [c]) = 10 * valueOfDigits s + digitValue c"
  by (simp add: valueOfDigits_def)

lemma valueOfDigits_digitsOf: "valueOfDigits (digitsOf n) = n"
proof (induction n rule: digitsOf.induct)
  case (1 n)
  show ?case
  proof (cases "n < 10")
    case True
    then show ?thesis
      by (subst digitsOf.simps) (simp add: valueOfDigits_def digitValue_digitChar)
  next
    case False
    then have "valueOfDigits (digitsOf n) = 10 * valueOfDigits (digitsOf (n div 10)) + n mod 10"
      by (subst digitsOf.simps) (simp add: valueOfDigits_snoc digitValue_digitChar)
    with "1.IH" [OF False] show ?thesis by simp
  qed
qed

lemma valueOfDigits_zeros: "valueOfDigits (replicate k CHR ''0'' @ s) = valueOfDigits s"
proof -
  have "foldl (\<lambda>a c. 10 * a + digitValue c) 0 (replicate k CHR ''0'') = 0"
    by (induction k) (simp_all add: digitValue_def)
  then show ?thesis by (simp add: valueOfDigits_def)
qed

lemma padStart_digitsOf_inj:
  "padStart k (digitsOf a) = padStart k (digitsOf b) \<Longrightarrow> a = b"
  by (metis padStart_def valueOfDigits_zeros valueOfDigits_digitsOf)

lemma digitsOf_inj: "digitsOf a = digitsOf b \<Longrightarrow> a = b"
  by (metis valueOfDigits_digitsOf)

lemma digitsOf_not_minus: "CHR ''-'' # s \<noteq> digitsOf n"
proof
  assume "CHR ''-'' # s = digitsOf n"
  then have "list_all isDigit (CHR ''-'' # s)" by (simp add: digitsOf_all_digits)
  then show False by (simp add: isDigit_def)
qed

lemma numberToString_inj: "numberToString i = numberToString j \<Longrightarrow> i = j"
  using digitsOf_not_minus digitsOf_not_minus [symmetric]
  by (auto simp: numberToString_def split: if_splits dest!: digitsOf_inj)

lemma div_step:
  fixes y n :: int
  assumes "0 < n"
  shows "y div n - (y - 1) div n = (if y mod n = 0 then 1 else 0)"
proof (cases "y mod n = 0")
  case True
  have "y = n * (y div n) + y mod n" by simp
  with True have "y = n * (y div n)" by simp
  then have "y - 1 = n * (y div n - 1) + (n - 1)" by (simp add: algebra_simps)
  moreover have "0 \<le> n - 1" "n - 1 < n" using assms by simp_all
  ultimately have "(y - 1) div n = y div n - 1" by (rule int_div_pos_eq)
  with True show ?thesis by simp
next
  case False
  have r: "0 \<le> y mod n" "y mod n < n" using assms by simp_all
  have "y - 1 = n * (y div n) + (y mod n - 1)" by simp
  moreover have "0 \<le> y mod n - 1" "y mod n - 1 < n" using r False by simp_all
  ultimately have "(y - 1) div n = y div n" by (rule int_div_pos_eq)
  with False show ?thesis by simp
qed

lemma mod_100_4: "(y::int) mod 100 = 0 \<Longrightarrow> y mod 4 = 0"
proof -
  assume "y mod 100 = 0"
  then have "100 dvd y" by (simp add: mod_eq_0_iff_dvd)
  moreover have "(4::int) dvd 100" by simp
  ultimately have "4 dvd y" by (rule dvd_trans [rotated])
  then show ?thesis by (simp add: mod_eq_0_iff_dvd)
qed

lemma mod_400_100: "(y::int) mod 400 = 0 \<Longrightarrow> y mod 100 = 0"
proof -
  assume "y mod 400 = 0"
  then have "400 dvd y" by (simp add: mod_eq_0_iff_dvd)
  moreover have "(100::int) dvd 400" by simp
  ultimately have "100 dvd y" by (rule dvd_trans [rotated])
  then show ?thesis by (simp add: mod_eq_0_iff_dvd)
qed

lemma yearStart_Suc: "yearStart (y + 1) = yearStart y + daysInYear y"
proof -
  have a: "y div 4 = (y - 1) div 4 + (if y mod 4 = 0 then 1 else 0)"
    using div_step [of 4 y] by simp
  have b: "y div 100 = (y - 1) div 100 + (if y mod 100 = 0 then 1 else 0)"
    using div_step [of 100 y] by simp
  have c: "y div 400 = (y - 1) div 400 + (if y mod 400 = 0 then 1 else 0)"
    using div_step [of 400 y] by simp
  have "yearStart (y + 1) = 365 * y + 365 + y div 4 - y div 100 + y div 400"
    by (simp add: yearStart_def)
  also have "\<dots> = yearStart y + daysInYear y"
    unfolding a b c yearStart_def daysInYear_def isLeapYear_def
    using mod_100_4 [of y] mod_400_100 [of y] by (cases "y mod 4 = 0"; cases "y mod 100 = 0"; cases "y mod 400 = 0") simp_all
  finally show ?thesis .
qed


lemma yearStart_pred: "yearStart (y - 1) + daysInYear (y - 1) = yearStart y"
  using yearStart_Suc [of "y - 1"] by simp

lemma yearOfDay_yearStart:
  "yearOfDay y z = (Y, doy) \<Longrightarrow> yearStart y + z = yearStart Y + doy"
proof (induction y z rule: yearOfDay.induct)
  case (1 y z)
  show ?case
  proof (cases "z < 0")
    case True
    with "1.prems" have "yearOfDay (y - 1) (z + daysInYear (y - 1)) = (Y, doy)"
      by (subst (asm) yearOfDay.simps) simp
    from "1.IH"(1) [OF True this] show ?thesis
      using yearStart_pred [of y] by simp
  next
    case False
    show ?thesis
    proof (cases "daysInYear y \<le> z")
      case True
      with False "1.prems" have "yearOfDay (y + 1) (z - daysInYear y) = (Y, doy)"
        by (subst (asm) yearOfDay.simps) simp
      from "1.IH"(2) [OF False True this] show ?thesis
        using yearStart_Suc [of y] by simp
    next
      case nle: False
      with False "1.prems" show ?thesis
        by (subst (asm) yearOfDay.simps) simp
    qed
  qed
qed

lemma monthOfDay_inverse:
  "0 \<le> z \<Longrightarrow> monthOfDay ls m z = (M, D) \<Longrightarrow>
     m \<le> M \<and> z = sum_list (take (nat (M - m)) ls) + D - 1"
proof (induction ls arbitrary: m z)
  case Nil
  then show ?case by simp
next
  case (Cons l ls)
  show ?case
  proof (cases "z < l \<or> ls = []")
    case True
    with Cons.prems show ?thesis by auto
  next
    case False
    with Cons.prems have md: "monthOfDay ls (m + 1) (z - l) = (M, D)" by simp
    have "0 \<le> z - l" using False by simp
    from Cons.IH [OF this md]
    have IH: "m + 1 \<le> M" "z - l = sum_list (take (nat (M - (m + 1))) ls) + D - 1" by simp_all
    have "nat (M - m) = Suc (nat (M - (m + 1)))" using IH(1) by simp
    with IH show ?thesis by simp
  qed
qed

lemma civil_from_days_inj:
  assumes "civil_from_days a = civil_from_days b"
  shows "a = b"
proof -
  obtain ya da where A: "yearOfDay 1970 a = (ya, da)" by (cases "yearOfDay 1970 a")
  obtain yb db where B: "yearOfDay 1970 b = (yb, db)" by (cases "yearOfDay 1970 b")
  obtain ma ea where MA: "monthOfDay (monthLengths ya) 1 da = (ma, ea)"
    by (cases "monthOfDay (monthLengths ya) 1 da")
  obtain mb eb where MB: "monthOfDay (monthLengths yb) 1 db = (mb, eb)"
    by (cases "monthOfDay (monthLengths yb) 1 db")
  from assms A B MA MB have eq: "ya = yb" "ma = mb" "ea = eb"
    by (simp_all add: civil_from_days_def)
  have "0 \<le> da" "0 \<le> db" using yearOfDay_range [OF A] yearOfDay_range [OF B] by simp_all
  from monthOfDay_inverse [OF this(1) MA] monthOfDay_inverse [OF this(2) MB] eq
  have "da = db" by simp
  with yearOfDay_yearStart [OF A] yearOfDay_yearStart [OF B] eq show ?thesis by simp
qed

lemma append_same_suffix_length:
  "xs @ us = ys @ vs \<Longrightarrow> length us = length vs \<Longrightarrow> xs = ys \<and> us = vs"
  by (simp add: append_eq_append_conv)

lemma append_same_prefix_length:
  "xs @ us = ys @ vs \<Longrightarrow> length xs = length ys \<Longrightarrow> xs = ys \<and> us = vs"
  by (simp add: append_eq_append_conv)

lemma formatDate_inj:
  assumes "formatDate a = formatDate b"
  shows "a = b"
proof -
  let ?Y = "\<lambda>d. numberToString (getFullYear d)"
  let ?M = "\<lambda>d. padStart 2 (digitsOf (nat (getMonth d + 1)))"
  let ?D = "\<lambda>d. padStart 2 (digitsOf (nat (getDate d)))"
  have f: "formatDate d = ?Y d @ (''-'' @ ?M d @ ''-'' @ ?D d)" for d
    using getMonth_range [of d] getDate_range [of d]
    by (simp add: formatDate_def numberToString_def Let_def)
  have lm: "length (?M d) = 2" for d
    using getMonth_range [of d] pad2_shape [of "nat (getMonth d + 1)"] by auto
  have ld: "length (?D d) = 2" for d
    using getDate_range [of d] pad2_shape [of "nat (getDate d)"] by auto
  have e1: "?Y a @ (''-'' @ ?M a @ ''-'' @ ?D a) = ?Y b @ (''-'' @ ?M b @ ''-'' @ ?D b)"
    using assms f by simp
  have l1: "length (''-'' @ ?M a @ ''-'' @ ?D a) = length (''-'' @ ?M b @ ''-'' @ ?D b)"
    using lm ld by simp
  from append_same_suffix_length [OF e1 l1]
  have y: "?Y a = ?Y b" and rest: "''-'' @ ?M a @ ''-'' @ ?D a = ''-'' @ ?M b @ ''-'' @ ?D b"
    by simp_all
  from rest have e2: "?M a @ (''-'' @ ?D a) = ?M b @ (''-'' @ ?D b)" by simp
  have l2: "length (?M a) = length (?M b)" using lm by simp
  from append_same_prefix_length [OF e2 l2]
  have m: "?M a = ?M b" and d: "?D a = ?D b"
    by simp_all
  have "getFullYear a = getFullYear b" using y by (rule numberToString_inj)
  moreover have "getMonth a = getMonth b"
    using padStart_digitsOf_inj [OF m] getMonth_range [of a] getMonth_range [of b] by linarith
  moreover have "getDate a = getDate b"
    using padStart_digitsOf_inj [OF d] getDate_range [of a] getDate_range [of b] by linarith
  ultimately have "civil_from_days a = civil_from_days b"
    by (simp add: getFullYear_def getMonth_def getDate_def prod_eq_iff)
  then show ?thesis by (rule civil_from_days_inj)
qed

subsection \<open>Day numbers and years\<close>

lemma div_shift:
  fixes a :: int
  assumes "b \<noteq> 0"
  shows "(a - b * c) div b = a div b - c"
proof -
  have "(a + b * (- c)) div b = - c + a div b" using assms by (rule div_mult_self2)
  then show ?thesis by simp
qed

lemma dayFromYear_yearStart: "dayFromYear y = yearStart y - 719527"
proof -
  have a: "(y - 1969) div 4 = (y - 1) div 4 - 492"
    using div_shift [of 4 "y - 1" 492] by simp
  have b: "(y - 1901) div 100 = (y - 1) div 100 - 19"
    using div_shift [of 100 "y - 1" 19] by simp
  have c: "(y - 1601) div 400 = (y - 1) div 400 - 4"
    using div_shift [of 400 "y - 1" 4] by simp
  show ?thesis unfolding dayFromYear_def yearStart_def a b c by simp
qed

lemma yearStart_1970: "yearStart 1970 = 719527"
  by (simp add: yearStart_def)

lemma dayFromYear_Suc: "dayFromYear (y + 1) = dayFromYear y + daysInYear y"
  by (simp add: dayFromYear_yearStart yearStart_Suc)

lemma dayFromYear_mono: "y \<le> y' \<Longrightarrow> dayFromYear y \<le> dayFromYear y'"
proof (induction y' rule: int_ge_induct)
  case base
  show ?case by simp
next
  case (step i)
  have "0 \<le> daysInYear i" by (simp add: daysInYear_def)
  with step dayFromYear_Suc [of i] show ?case by simp
qed

text \<open>The year of a day is the one whose first day is the last at or before it.\<close>

lemma getFullYear_bounds:
  "dayFromYear (getFullYear d) \<le> d \<and> d < dayFromYear (getFullYear d + 1)"
proof -
  obtain Y doy where yd: "yearOfDay 1970 d = (Y, doy)" by (cases "yearOfDay 1970 d")
  have y: "getFullYear d = Y"
    by (simp add: getFullYear_def civil_from_days_def yd split: prod.splits)
  from yearOfDay_yearStart [OF yd] yearOfDay_range [OF yd] show ?thesis
    unfolding y by (simp add: dayFromYear_Suc) (simp add: dayFromYear_yearStart yearStart_1970)
qed

lemma getFullYear_unique:
  assumes "dayFromYear Y \<le> d" "d < dayFromYear (Y + 1)"
  shows "getFullYear d = Y"
proof (rule ccontr)
  assume ne: "getFullYear d \<noteq> Y"
  note b = getFullYear_bounds [of d]
  show False
  proof (cases "getFullYear d < Y")
    case True
    then have "dayFromYear (getFullYear d + 1) \<le> dayFromYear Y" by (intro dayFromYear_mono) simp
    with b assms show False by simp
  next
    case False
    with ne have "dayFromYear (Y + 1) \<le> dayFromYear (getFullYear d)" by (intro dayFromYear_mono) simp
    with b assms show False by simp
  qed
qed

lemma getFullYear_mono: "d \<le> d' \<Longrightarrow> getFullYear d \<le> getFullYear d'"
proof (rule ccontr)
  assume le: "d \<le> d'" and "\<not> getFullYear d \<le> getFullYear d'"
  then have "dayFromYear (getFullYear d' + 1) \<le> dayFromYear (getFullYear d)"
    by (intro dayFromYear_mono) simp
  with getFullYear_bounds [of d] getFullYear_bounds [of d'] le show False by simp
qed

lemma yearOfDay_eq:
  assumes "dayFromYear Y \<le> z" "z < dayFromYear (Y + 1)"
  shows "yearOfDay 1970 z = (Y, z - dayFromYear Y)"
proof -
  obtain Y' doy where yd: "yearOfDay 1970 z = (Y', doy)" by (cases "yearOfDay 1970 z")
  have "getFullYear z = Y'"
    by (simp add: getFullYear_def civil_from_days_def yd split: prod.splits)
  with getFullYear_unique [OF assms] have "Y' = Y" by simp
  with yearOfDay_yearStart [OF yd] yd show ?thesis
    by (simp add: dayFromYear_yearStart yearStart_1970)
qed

lemma civil_from_days_eval:
  assumes "dayFromYear Y \<le> z" "z < dayFromYear (Y + 1)"
  shows "civil_from_days z =
     (case monthOfDay (monthLengths Y) 1 (z - dayFromYear Y) of (m, d) \<Rightarrow> (Y, m, d))"
  by (simp add: civil_from_days_def yearOfDay_eq [OF assms])

text \<open>Rebuilding a date from its own fields gives the date back, but for the years 0 to 99.\<close>

lemma makeDay_fields: "makeDay (getFullYear d) (getMonth d) (getDate d) = d"
proof -
  obtain Y doy where yd: "yearOfDay 1970 d = (Y, doy)" by (cases "yearOfDay 1970 d")
  obtain M D where md: "monthOfDay (monthLengths Y) 1 doy = (M, D)"
    by (cases "monthOfDay (monthLengths Y) 1 doy")
  have c: "civil_from_days d = (Y, M, D)" by (simp add: civil_from_days_def yd md)
  have f: "getFullYear d = Y" "getMonth d = M - 1" "getDate d = D"
    by (simp_all add: getFullYear_def getMonth_def getDate_def c)
  have r: "0 \<le> doy" using yearOfDay_range [OF yd] by simp
  from monthOfDay_inverse [OF r md]
  have z: "doy = sum_list (take (nat (M - 1)) (monthLengths Y)) + D - 1" by simp
  have mr: "1 \<le> M" "M \<le> 12" using civil_range [OF c] by simp_all
  then have dm: "(M - 1) div 12 = 0" "(M - 1) mod 12 = M - 1" by simp_all
  from yearOfDay_yearStart [OF yd] z show ?thesis
    by (simp add: makeDay_def f dm dayFromYear_yearStart yearStart_1970 Let_def)
qed

lemma newDate_fields:
  "getFullYear d < 0 \<or> 99 < getFullYear d \<Longrightarrow>
     newDate (getFullYear d) (getMonth d) (getDate d) = d"
  by (auto simp: newDate_def makeDay_fields)

subsection \<open>Evaluating dates of 2025\<close>

lemma yearOfDay_2025:
  "20089 \<le> z \<Longrightarrow> z < 20454 \<Longrightarrow> yearOfDay 1970 z = (2025, z - 20089)"
  using yearOfDay_eq [of 2025 z] by (simp add: dayFromYear_def)

lemma getFullYear_2025:
  "20089 \<le> z \<Longrightarrow> z < 20454 \<Longrightarrow> getFullYear z = 2025"
  by (simp add: getFullYear_def civil_from_days_def yearOfDay_2025 split: prod.splits)

lemma civil_2025:
  "civil_from_days 20234 = (2025, 5, 26)"
  "civil_from_days 20241 = (2025, 6, 2)"
  "civil_from_days 20248 = (2025, 6, 9)"
  "civil_from_days 20255 = (2025, 6, 16)"
  "civil_from_days 20262 = (2025, 6, 23)"
  "civil_from_days 20269 = (2025, 6, 30)"
  "civil_from_days 20276 = (2025, 7, 7)"
  "civil_from_days 20283 = (2025, 7, 14)"
  "civil_from_days 20290 = (2025, 7, 21)"
  by (simp_all add: civil_from_days_def yearOfDay_2025 monthLengths_def isLeapYear_def)

lemma formatDate_2025:
  "formatDate 20234 = ''2025-05-26''"
  "formatDate 20241 = ''2025-06-02''"
  "formatDate 20248 = ''2025-06-09''"
  "formatDate 20255 = ''2025-06-16''"
  "formatDate 20262 = ''2025-06-23''"
  "formatDate 20269 = ''2025-06-30''"
  "formatDate 20276 = ''2025-07-07''"
  "formatDate 20283 = ''2025-07-14''"
  "formatDate 20290 = ''2025-07-21''"
  by (simp_all add: formatDate_def getFullYear_def getMonth_def getDate_def civil_2025
        numberToString_def padStart_def digitsOf.simps digitChar_def)

subsection \<open>The Monday of the week\<close>

lemma weekStartDate_eq:
  "getFullYear d < 0 \<or> 99 < getFullYear d \<Longrightarrow>
     weekStartDate d = d - getDay d + (if getDay d = 0 then - 6 else 1)"
  by (simp add: weekStartDate_def newDate_fields setDate_def Let_def)

lemma weekStartDate_monday:
  assumes "getFullYear d < 0 \<or> 99 < getFullYear d"
  shows "getDay (weekStartDate d) = 1 \<and> weekStartDate d \<le> d \<and> d < weekStartDate d + 7 \<and>
   (getDay d = 0 \<longrightarrow> weekStartDate d = d - 6)"
proof -
  define k where "k = (d + 4) div 7"
  define r where "r = (d + 4) mod 7"
  have d: "7 * k = d + 4 - r" by (simp add: k_def r_def minus_mod_eq_mult_div)
  have r: "0 \<le> r" "r < 7" by (simp_all add: r_def)
  have gd: "getDay d = r" by (simp add: getDay_def r_def)
  have w: "weekStartDate d = 7 * k - 4 + (if r = 0 then - 6 else 1)"
    unfolding weekStartDate_eq [OF assms] gd using d by auto
  have "getDay (weekStartDate d) = 1"
  proof (cases "r = 0")
    case True
    then have "weekStartDate d + 4 = 7 * (k - 1) + 1" using w by simp
    then show ?thesis unfolding getDay_def by (simp only: mod_mult_self4) simp
  next
    case False
    then have "weekStartDate d + 4 = 7 * k + 1" using w by simp
    then show ?thesis unfolding getDay_def by (simp only: mod_mult_self4) simp
  qed
  moreover have "weekStartDate d \<le> d" "d < weekStartDate d + 7"
    using w d r by (auto split: if_splits)
  moreover have "getDay d = 0 \<longrightarrow> weekStartDate d = d - 6"
    using w d gd by auto
  ultimately show ?thesis by simp
qed

lemma formatDate_iso:
  assumes "1000 \<le> getFullYear m" "getFullYear m \<le> 9999"
  shows "formatDate m = isoDate (getFullYear m) (getMonth m + 1) (getDate m) \<and>
         isIsoDateString (formatDate m)"
proof -
  let ?y = "nat (getFullYear m)" and ?mo = "nat (getMonth m + 1)" and ?da = "nat (getDate m)"
  have ly: "length (digitsOf ?y) = 4" using assms by (intro digitsOf_length4) auto
  have mo: "?mo < 100" using getMonth_range [of m] by auto
  have da: "?da < 100" using getDate_range [of m] by auto
  have f: "formatDate m = digitsOf ?y @ ''-'' @ padStart 2 (digitsOf ?mo) @ ''-'' @ padStart 2 (digitsOf ?da)"
    using assms getMonth_range [of m] getDate_range [of m]
    by (simp add: formatDate_def numberToString_def Let_def)
  have i: "isoDate (getFullYear m) (getMonth m + 1) (getDate m) = digitsOf ?y @ ''-'' @ padStart 2 (digitsOf ?mo) @ ''-'' @ padStart 2 (digitsOf ?da)"
    using ly by (simp add: isoDate_def padStart_def)
  have "isIsoDateString (digitsOf ?y @ ''-'' @ padStart 2 (digitsOf ?mo) @ ''-'' @ padStart 2 (digitsOf ?da))"
    using ly pad2_shape [OF mo] pad2_shape [OF da] digitsOf_all_digits [of ?y]
    by (intro iso_shape) auto
  with f i show ?thesis by simp
qed

lemma getWeekStart_eq_iff:
  "getWeekStart a = getWeekStart b \<longleftrightarrow> weekStartDate a = weekStartDate b"
  using formatDate_inj by (auto simp: getWeekStart_def)

text \<open>
  What \<^verbatim>\<open>getWeekStart\<close> does for a date \<open>d\<close> whose year is not one of 0 to 99.
  \<open>weekStartDate d\<close>, the date that it formats, is the Monday of the Monday-to-Sunday week
  that contains \<open>d\<close> (a Sunday maps to the Monday six days earlier), and the result is that
  Monday's year, month and day joined by hyphens, month and day padded to two digits;
  two such dates get the same result exactly when they lie in the same week. When the
  Monday's year has four digits (1000 to 9999) the result is the ISO calendar date
  \<^verbatim>\<open>YYYY-MM-DD\<close> of that Monday.
\<close>

lemma getWeekStart_week:
  assumes "getFullYear d < 0 \<or> 99 < getFullYear d"
  shows "getDay (weekStartDate d) = 1 \<and> weekStartDate d \<le> d \<and> d < weekStartDate d + 7 \<and>
   (getDay d = 0 \<longrightarrow> weekStartDate d = d - 6) \<and>
   getWeekStart d = formatDate (weekStartDate d) \<and>
   (getWeekStart d' = getWeekStart d \<longleftrightarrow> weekStartDate d' = weekStartDate d) \<and>
   (1000 \<le> getFullYear (weekStartDate d) \<and> getFullYear (weekStartDate d) \<le> 9999 \<longrightarrow>
      getWeekStart d =
        isoDate (getFullYear (weekStartDate d)) (getMonth (weekStartDate d) + 1)
          (getDate (weekStartDate d)) \<and>
      isIsoDateString (getWeekStart d))"
  using weekStartDate_monday [OF assms] formatDate_iso [of "weekStartDate d"]
    getWeekStart_eq_iff [of d' d]
  by (auto simp: getWeekStart_def)

subsection \<open>Years of fewer than four digits\<close>

lemma civil_999:
  "civil_from_days (- 354495) = (999, 6, 5)"
  "civil_from_days (- 354497) = (999, 6, 3)"
  by (subst civil_from_days_eval [where Y = 999],
      simp_all add: dayFromYear_def monthLengths_def isLeapYear_def)+

lemma getWeekStart_999: "getWeekStart (- 354495) = ''999-06-03''"
proof -
  have "getFullYear (- 354495) = 999" by (simp add: getFullYear_def civil_999)
  then have "weekStartDate (- 354495) = - 354497"
    by (simp add: weekStartDate_eq getDay_def)
  then show ?thesis
    by (simp add: getWeekStart_def formatDate_def getFullYear_def getMonth_def getDate_def
          civil_999 numberToString_def padStart_def digitsOf.simps digitChar_def)
qed

lemma civil_50:
  "civil_from_days (- 701110) = (50, 6, 5)"
  by (subst civil_from_days_eval [where Y = 50],
      simp_all add: dayFromYear_def monthLengths_def isLeapYear_def)

lemma civil_1950:
  "civil_from_days (- 7150) = (1950, 6, 5)"
  by (subst civil_from_days_eval [where Y = 1950],
      simp_all add: dayFromYear_def monthLengths_def isLeapYear_def)

lemma getWeekStart_50: "getWeekStart (- 701110) = ''1950-06-05''"
proof -
  have n: "newDate 50 5 5 = - 7150"
    by (simp add: newDate_def makeDay_def dayFromYear_def monthLengths_def isLeapYear_def)
  have "weekStartDate (- 701110) = - 7150"
    by (simp add: weekStartDate_def getFullYear_def getMonth_def getDate_def civil_50 n
          civil_1950 getDay_def setDate_def)
  then show ?thesis
    by (simp add: getWeekStart_def formatDate_def getFullYear_def getMonth_def getDate_def
          civil_1950 numberToString_def padStart_def digitsOf.simps digitChar_def)
qed

text \<open>
  C9 fails on the code for years of fewer than four digits. The result is built as
  \<^verbatim>\<open>${yyyy}-${mm}-${dd}\<close> under the comment "Format as YYYY-MM-DD": month and day are
  padded with \<^verbatim>\<open>padStart(2, '0')\<close>, the year is not. For Wednesday 5 June 999 (day -354495)
  the Monday is right, 3 June 999, but the result is \<^verbatim>\<open>999-06-03\<close>, which is not of the
  form \<^verbatim>\<open>YYYY-MM-DD\<close> (the ISO date is \<^verbatim>\<open>0999-06-03\<close>). For the years 0 to 99 the Monday
  itself is wrong: line 655 rebuilds the date with \<^verbatim>\<open>new Date(year, month, day)\<close>, which
  reads those years as 1900 to 1999, so Sunday 5 June 0050 (day -701110) gets
  \<^verbatim>\<open>1950-06-05\<close>, a Monday 1900 years after it.
\<close>

theorem getWeekStart_short_years:
  "civil_from_days (- 354495) = (999, 6, 5) \<and>
   getWeekStart (- 354495) = ''999-06-03'' \<and>
   \<not> isIsoDateString (getWeekStart (- 354495)) \<and>
   isoDate 999 6 3 = ''0999-06-03'' \<and>
   civil_from_days (- 701110) = (50, 6, 5) \<and> getDay (- 701110) = 0 \<and>
   getWeekStart (- 701110) = ''1950-06-05''"
  by (simp add: civil_999 civil_50 getWeekStart_999 getWeekStart_50 isIsoDateString_def
        isoDate_def padStart_def digitsOf.simps digitChar_def getDay_def)

section \<open>The worked example\<close>

subsection \<open>Reading the arrival date\<close>

lemma dateOfString_east: "0 \<le> tz \<Longrightarrow> tz < msPerDay \<Longrightarrow> dateOfString tz day = day"
proof -
  assume "0 \<le> tz" "tz < msPerDay"
  then have "(day * msPerDay + tz) div msPerDay = day + tz div msPerDay"
    by (simp add: msPerDay_def)
  with \<open>0 \<le> tz\<close> \<open>tz < msPerDay\<close> show ?thesis
    by (simp add: dateOfString_def)
qed

lemma dateOfString_west: "- msPerDay \<le> tz \<Longrightarrow> tz < 0 \<Longrightarrow> dateOfString tz day = day - 1"
proof -
  assume a: "- msPerDay \<le> tz" "tz < 0"
  have "day * msPerDay + tz = msPerDay * (day - 1) + (tz + msPerDay)"
    by (simp add: algebra_simps)
  moreover have "0 \<le> tz + msPerDay" "tz + msPerDay < msPerDay" using a by simp_all
  ultimately have "(day * msPerDay + tz) div msPerDay = day - 1" by (rule int_div_pos_eq)
  then show ?thesis by (simp add: dateOfString_def)
qed

subsection \<open>Business days and weeks from a Monday, a Friday and a Sunday\<close>

lemma monday_form: "getDay d = 1 \<Longrightarrow> \<exists>k. d = 7 * k - 3"
proof -
  assume "getDay d = 1"
  then have "(d + 4) mod 7 = 1" by (simp add: getDay_def)
  then have "d + 4 = 7 * ((d + 4) div 7) + 1" by (metis mult_div_mod_eq)
  then have "d = 7 * ((d + 4) div 7) - 3" by simp
  then show ?thesis ..
qed

lemma addBusinessDays_monday_5: "getDay d = 1 \<Longrightarrow> addBusinessDays d 5 = d + 7"
proof -
  assume "getDay d = 1"
  then obtain k where d: "d = 7 * k - 3" using monday_form by blast
  show ?thesis
    unfolding d addBusinessDays_def
    by (simp add: addBusinessDaysLoop.simps getDay_def Let_def)
qed

lemma getDay_plus_7 [simp]: "getDay (d + 7) = getDay d"
proof -
  have "d + 7 + 4 = d + 4 + 7" by simp
  then show ?thesis unfolding getDay_def by (simp only: mod_add_self2)
qed

lemma weekStartDate_of_monday:
  "getFullYear d < 0 \<or> 99 < getFullYear d \<Longrightarrow> getDay d = 1 \<Longrightarrow> weekStartDate d = d"
  by (simp add: weekStartDate_eq)

lemma getDay_plus_weeks: "getDay (d + 7 * k) = getDay d"
proof -
  have "d + 7 * k + 4 = d + 4 + 7 * k" by simp
  then show ?thesis unfolding getDay_def by (simp only: mod_mult_self2)
qed

lemma getDay_plus_7k:
  "getDay d = 1 \<Longrightarrow>
     getDay (d + 7) = 1 \<and> getDay (d + 14) = 1 \<and> getDay (d + 21) = 1 \<and>
     getDay (d + 28) = 1 \<and> getDay (d + 35) = 1 \<and> getDay (d + 42) = 1"
  using getDay_plus_weeks [of d 1] getDay_plus_weeks [of d 2] getDay_plus_weeks [of d 3]
    getDay_plus_weeks [of d 4] getDay_plus_weeks [of d 5] getDay_plus_weeks [of d 6]
  by simp

lemma getWeekStart_mondays_neq:
  "99 < getFullYear a \<Longrightarrow> 99 < getFullYear b \<Longrightarrow> getDay a = 1 \<Longrightarrow> getDay b = 1 \<Longrightarrow> a \<noteq> b \<Longrightarrow>
     getWeekStart a \<noteq> getWeekStart b"
  by (simp add: getWeekStart_eq_iff weekStartDate_of_monday)

lemma getWeekStart_2025:
  "getWeekStart 20241 = ''2025-06-02''"
  "getWeekStart 20248 = ''2025-06-09''"
  "getWeekStart 20255 = ''2025-06-16''"
  "getWeekStart 20262 = ''2025-06-23''"
  "getWeekStart 20269 = ''2025-06-30''"
  "getWeekStart 20276 = ''2025-07-07''"
  "getWeekStart 20283 = ''2025-07-14''"
  "getWeekStart 20290 = ''2025-07-21''"
  by (simp_all add: getWeekStart_def weekStartDate_eq getFullYear_2025 getDay_def formatDate_2025)

text \<open>The week of a Sunday and of six Fridays of June and July 2025.\<close>

lemma getWeekStart_2025_inside:
  "getWeekStart 20247 = ''2025-06-02''"
  "getWeekStart 20252 = ''2025-06-09''"
  "getWeekStart 20259 = ''2025-06-16''"
  "getWeekStart 20266 = ''2025-06-23''"
  "getWeekStart 20273 = ''2025-06-30''"
  "getWeekStart 20280 = ''2025-07-07''"
  "getWeekStart 20287 = ''2025-07-14''"
  by (simp_all add: getWeekStart_def weekStartDate_eq getFullYear_2025 getDay_def formatDate_2025)

lemma addBusinessDays_2025:
  "addBusinessDays 20247 5 = 20252"
  "addBusinessDays 20252 5 = 20259"
  "addBusinessDays 20259 5 = 20266"
  "addBusinessDays 20266 5 = 20273"
  "addBusinessDays 20273 5 = 20280"
  "addBusinessDays 20280 5 = 20287"
  by (simp_all add: addBusinessDays_def addBusinessDaysLoop.simps getDay_def Let_def)

subsection \<open>The six iterations\<close>

lemma load5: "loadJobStages ((workedExample a)\<lparr>schedules := old\<rparr>) 1 = pipe5"
  by (simp add: loadJobStages_def workedExample_def exStage_def exLink_def exPipe_def pipe5_def)

lemmas ex_eval = mkBatch_def processBatch_def scheduleBatch_def pipe5_def exPipe_def exStage_def at_def
  exJob_def Let_def

lemma iter1:
  assumes "dateOfString tz a = d1"
  shows "forLoop tz (Suc (Suc 0)) 1 (exJob a) pipe5 0 [initialBatch (exJob a)] rows =
     Some (scheduleQuantityForWeek 1 1 (getWeekStart d1) 15 rows,
           Inr [mkBatch 15 (Some 1) False False (Some d1) None])"
  using assms by (simp add: ex_eval initialBatch_def addBusinessDays_def)

lemma iter2:
  assumes "addBusinessDays d1 5 = d2"
  shows "forLoop tz (Suc (Suc 0)) 1 (exJob a) pipe5 0
           [mkBatch 15 (Some 1) False False (Some d1) None] rows =
     Some (scheduleQuantityForWeek 1 2 (getWeekStart d2) 2 rows,
           Inr [mkBatch 2 (Some 2) False False (Some d2) None,
                mkBatch 13 (Some 1) True False None (Some 4)])"
  using assms by (simp add: ex_eval)

lemma iter3:
  assumes "addBusinessDays d2 5 = d3"
  shows "forLoop tz (Suc (Suc 0)) 1 (exJob a) pipe5 0
           [mkBatch 2 (Some 2) False False (Some d2) None,
            mkBatch 13 (Some 1) True False None (Some 4)] rows =
     Some (scheduleQuantityForWeek 1 3 (getWeekStart d3) 2 rows,
           Inr [mkBatch 2 (Some 3) False False (Some d3) None,
                mkBatch 13 (Some 1) True False None (Some 4)])"
  using assms by (simp add: ex_eval)

lemma iter4:
  assumes "addBusinessDays d3 5 = d4" "addBusinessDays d4 5 = d5"
  shows "forLoop tz (Suc (Suc 0)) 1 (exJob a) pipe5 0
           [mkBatch 2 (Some 3) False False (Some d3) None,
            mkBatch 13 (Some 1) True False None (Some 4)] rows =
     Some (scheduleQuantityForWeek 1 3 (getWeekStart d5) 13
            (scheduleQuantityForWeek 1 2 (getWeekStart d4) 13
              (scheduleQuantityForWeek 1 4 (getWeekStart d4) 2 rows)),
           Inr [mkBatch 2 (Some 4) False False (Some d4) None,
                mkBatch 13 (Some 3) False False (Some d5) None])"
  using assms by (simp add: ex_eval)

lemma iter5:
  assumes "addBusinessDays d4 5 = d5" "addBusinessDays d5 5 = d6"
  shows "forLoop tz (Suc (Suc 0)) 1 (exJob a) pipe5 0
           [mkBatch 2 (Some 4) False False (Some d4) None,
            mkBatch 13 (Some 3) False False (Some d5) None] rows =
     Some (scheduleQuantityForWeek 1 4 (getWeekStart d6) 13
            (scheduleQuantityForWeek 1 5 (getWeekStart d5) 2 rows),
           Inr [mkBatch 2 (Some 5) False True (Some d5) None,
                mkBatch 13 (Some 4) False False (Some d6) None])"
  using assms by (simp add: ex_eval)

lemma iter6:
  assumes "addBusinessDays d6 5 = d7"
  shows "forLoop tz (Suc (Suc 0)) 1 (exJob a) pipe5 0
           [mkBatch 2 (Some 5) False True (Some d5) None,
            mkBatch 13 (Some 4) False False (Some d6) None] rows =
     Some (scheduleQuantityForWeek 1 5 (getWeekStart d7) 13 rows,
           Inr [mkBatch 2 (Some 5) False True (Some d5) None,
                mkBatch 13 (Some 5) False True (Some d7) None])"
  using assms by (simp add: ex_eval)

lemma sort_ex [simp]:
  "sortBatches [mkBatch q l False c d r] = [mkBatch q l False c d r]"
  "sortBatches [mkBatch q l False c d r, mkBatch q' l' h' c' d' r'] =
     [mkBatch q l False c d r, mkBatch q' l' h' c' d' r']"
  by (auto simp: sortBatches_def mkBatch_def)

text \<open>
  The run of the \<^verbatim>\<open>while\<close> loop, for the day \<open>d1\<close> as which the arrival date is read and
  the six days \<open>d2\<close>, ..., \<open>d7\<close> that follow it in steps of 5 business days.
\<close>

lemma worked_example_loop:
  assumes "dateOfString tz a = d1"
    "addBusinessDays d1 5 = d2" "addBusinessDays d2 5 = d3" "addBusinessDays d3 5 = d4"
    "addBusinessDays d4 5 = d5" "addBusinessDays d5 5 = d6" "addBusinessDays d6 5 = d7"
  shows "whileLoop tz (Suc (Suc 0)) 1 (exJob a) pipe5 0 [initialBatch (exJob a)] rows =
     Some (scheduleQuantityForWeek 1 5 (getWeekStart d7) 13
            (scheduleQuantityForWeek 1 4 (getWeekStart d6) 13
              (scheduleQuantityForWeek 1 5 (getWeekStart d5) 2
                (scheduleQuantityForWeek 1 3 (getWeekStart d5) 13
                  (scheduleQuantityForWeek 1 2 (getWeekStart d4) 13
                    (scheduleQuantityForWeek 1 4 (getWeekStart d4) 2
                      (scheduleQuantityForWeek 1 3 (getWeekStart d3) 2
                        (scheduleQuantityForWeek 1 2 (getWeekStart d2) 2
                          (scheduleQuantityForWeek 1 1 (getWeekStart d1) 15 rows)))))))),
           Inr 6)"
proof -
  have init: "sortBatches [initialBatch (exJob a)] = [initialBatch (exJob a)]"
    by (simp add: sortBatches_def initialBatch_def)
  have nc: "\<not> schedulingCompleted (initialBatch (exJob a))" by (simp add: initialBatch_def)
  show ?thesis
    apply (subst whileLoop_step, simp add: nc maxIterations_def)
    apply (simp only: init iter1 [OF assms(1)] option.case prod.case sum.case)
    apply (subst whileLoop_step, simp add: mkBatch_def maxIterations_def)
    apply (simp only: sort_ex iter2 [OF assms(2)] option.case prod.case sum.case)
    apply (subst whileLoop_step, simp add: mkBatch_def maxIterations_def)
    apply (simp only: sort_ex iter3 [OF assms(3)] option.case prod.case sum.case)
    apply (subst whileLoop_step, simp add: mkBatch_def maxIterations_def)
    apply (simp only: sort_ex iter4 [OF assms(4,5)] option.case prod.case sum.case)
    apply (subst whileLoop_step, simp add: mkBatch_def maxIterations_def)
    apply (simp only: sort_ex iter5 [OF assms(5,6)] option.case prod.case sum.case)
    apply (subst whileLoop_step, simp add: mkBatch_def maxIterations_def)
    apply (simp only: sort_ex iter6 [OF assms(7)] option.case prod.case sum.case)
    apply (subst whileLoop_stop, simp add: mkBatch_def maxIterations_def)
    apply simp
    done
qed

lemma worked_example_rows:
  assumes "w2 \<noteq> w4" "w3 \<noteq> w5" "w4 \<noteq> w6" "w5 \<noteq> w7"
  shows "scheduleQuantityForWeek 1 5 w7 13
            (scheduleQuantityForWeek 1 4 w6 13
              (scheduleQuantityForWeek 1 5 w5 2
                (scheduleQuantityForWeek 1 3 w5 13
                  (scheduleQuantityForWeek 1 2 w4 13
                    (scheduleQuantityForWeek 1 4 w4 2
                      (scheduleQuantityForWeek 1 3 w3 2
                        (scheduleQuantityForWeek 1 2 w2 2
                          (scheduleQuantityForWeek 1 1 w1 15 [])))))))) =
         [exRow 1 w1 15, exRow 2 w2 2, exRow 3 w3 2, exRow 4 w4 2, exRow 2 w4 13,
          exRow 3 w5 13, exRow 5 w5 2, exRow 4 w6 13, exRow 5 w7 13]"
  using assms by (simp add: scheduleQuantityForWeek_def sameKey_def exRow_def)

lemma worked_example_totals:
  assumes "w2 \<noteq> w4" "w3 \<noteq> w5" "w4 \<noteq> w6" "w5 \<noteq> w7"
  shows "list_all (\<lambda>s. stageTotal 1 s
            [exRow 1 w1 15, exRow 2 w2 2, exRow 3 w3 2, exRow 4 w4 2, exRow 2 w4 13,
             exRow 3 w5 13, exRow 5 w5 2, exRow 4 w6 13, exRow 5 w7 13] = 15) [1, 2, 3, 4, 5]"
  by (simp add: stageTotal_def exRow_def)

text \<open>
  The call itself, from the result of the loop: on the worked example's database, with
  any earlier rows \<open>old\<close> of job 1 in it.
\<close>

lemma worked_example_call:
  assumes "whileLoop tz (Suc (Suc 0)) 1 (exJob a) pipe5 0 [initialBatch (exJob a)] [] =
             Some (rows, Inr 6)"
    and "list_all (\<lambda>r. sch_jobId r = 1) old" and "2 \<le> fuel"
  shows "autoPlanJob tz fuel ((workedExample a)\<lparr>schedules := old\<rparr>) 1 =
           Some ((workedExample a)\<lparr>schedules := rows\<rparr>, Inr ())"
proof -
  from assms(3) obtain k where "fuel = 2 + k" by (auto simp: le_iff_add)
  then have k: "fuel = Suc (Suc 0) + k" by simp
  have loop: "whileLoop tz fuel 1 (exJob a) pipe5 0 [initialBatch (exJob a)] [] =
      Some (rows, Inr 6)"
    unfolding k by (rule whileLoop_fuel_mono [OF assms(1)])
  have j: "getJob ((workedExample a)\<lparr>schedules := old\<rparr>) 1 = Some (exJob a)"
    by (simp add: getJob_def workedExample_def exJob_def)
  have t: "find (\<lambda>t. at_name t = activityType (exJob a)) (activityTypes (workedExample a)) =
             Some \<lparr>at_id = 1, at_name = ''TEST''\<rparr>"
    by (simp add: workedExample_def exJob_def)
  have c: "filter (\<lambda>r. sch_jobId r \<noteq> 1) old = []"
    using assms(2) by (induction old) auto
  show ?thesis
    by (simp add: autoPlanJob_def j t load5 c loop maxIterations_def) (simp add: pipe5_def)
qed

lemma worked_example_week_keys:
  assumes "getDay d = 1" and "99 < getFullYear d"
  shows "getWeekStart (d + 7) \<noteq> getWeekStart (d + 21)"
    "getWeekStart (d + 14) \<noteq> getWeekStart (d + 28)"
    "getWeekStart (d + 21) \<noteq> getWeekStart (d + 35)"
    "getWeekStart (d + 28) \<noteq> getWeekStart (d + 42)"
proof -
  note m = getDay_plus_7k [OF assms(1)]
  have y: "99 < getFullYear (d + k)" if "0 \<le> k" for k
    using getFullYear_mono [of d "d + k"] assms(2) that by simp
  show "getWeekStart (d + 7) \<noteq> getWeekStart (d + 21)"
    "getWeekStart (d + 14) \<noteq> getWeekStart (d + 28)"
    "getWeekStart (d + 21) \<noteq> getWeekStart (d + 35)"
    "getWeekStart (d + 28) \<noteq> getWeekStart (d + 42)"
    using m y by (simp_all add: getWeekStart_mondays_neq)
qed

lemma worked_example_run:
  assumes "getDay d = 1" and "99 < getFullYear d" and "0 \<le> tz" and "tz < msPerDay"
    and "list_all (\<lambda>r. sch_jobId r = 1) old" and "2 \<le> fuel"
  shows "autoPlanJob tz fuel ((workedExample d)\<lparr>schedules := old\<rparr>) 1 =
           Some ((workedExample d)\<lparr>schedules := workedExamplePlan d\<rparr>, Inr ())"
proof -
  note m = getDay_plus_7k [OF assms(1)]
  have ds: "dateOfString tz d = d" using assms(3,4) by (rule dateOfString_east)
  have ab: "addBusinessDays d 5 = d + 7" "addBusinessDays (d + 7) 5 = d + 14"
    "addBusinessDays (d + 14) 5 = d + 21" "addBusinessDays (d + 21) 5 = d + 28"
    "addBusinessDays (d + 28) 5 = d + 35" "addBusinessDays (d + 35) 5 = d + 42"
    using assms(1) m by (simp_all add: addBusinessDays_monday_5)
  note neq = worked_example_week_keys [OF assms(1,2)]
  have loop2: "whileLoop tz (Suc (Suc 0)) 1 (exJob d) pipe5 0 [initialBatch (exJob d)] [] =
      Some (workedExamplePlan d, Inr 6)"
    unfolding worked_example_loop [OF ds ab] worked_example_rows [OF neq] workedExamplePlan_def ..
  from worked_example_call [OF loop2 assms(5,6)] show ?thesis .
qed

lemma worked_example_plan_totals:
  assumes "getDay d = 1" and "99 < getFullYear d"
  shows "list_all (\<lambda>s. stageTotal 1 s (workedExamplePlan d) = 15) [1, 2, 3, 4, 5]"
  unfolding workedExamplePlan_def
  by (rule worked_example_totals [OF worked_example_week_keys [OF assms]])

text \<open>
  What the code does for the worked example where the local time zone is UTC or east of
  it, for an arrival on a Monday \<open>d\<close> of the year 100 or later: the call returns without
  error and the job's rows are exactly those of \<open>workedExamplePlan d\<close>: week 1 Stage 1 =
  15; week 2 Stage 2 = 2; week 3 Stage 3 = 2; week 4 Stage 4 = 2 and Stage 2 = 13; week 5
  Stage 3 = 13 and Stage 5 = 2; week 6 Stage 4 = 13; week 7 Stage 5 = 13, week \<open>k\<close> being
  the week of the Monday \<open>d + 7 (k - 1)\<close>. Every stage's total over the weeks is 15.
\<close>

lemma worked_example_east_of_utc:
  assumes "getDay d = 1" and "99 < getFullYear d" and "0 \<le> tz" and "tz < msPerDay"
    and "2 \<le> fuel"
  shows "autoPlanJob tz fuel (workedExample d) 1 =
           Some ((workedExample d)\<lparr>schedules := workedExamplePlan d\<rparr>, Inr ()) \<and>
         list_all (\<lambda>s. stageTotal 1 s (workedExamplePlan d) = 15) [1, 2, 3, 4, 5]"
proof -
  have e: "(workedExample d)\<lparr>schedules := []\<rparr> = workedExample d"
    by (simp add: workedExample_def)
  from worked_example_run [OF assms(1,2,3,4) _ assms(5), of "[]"] e
    worked_example_plan_totals [OF assms(1,2)]
  show ?thesis by simp
qed

text \<open>The run for an arrival on Monday 2025-06-09 (day 20248), read in UTC.\<close>

lemma worked_example_utc:
  "autoPlanJob 0 2 (workedExample 20248) 1 =
     Some ((workedExample 20248)\<lparr>schedules :=
             [exRow 1 ''2025-06-09'' 15,
              exRow 2 ''2025-06-16'' 2,
              exRow 3 ''2025-06-23'' 2,
              exRow 4 ''2025-06-30'' 2,
              exRow 2 ''2025-06-30'' 13,
              exRow 3 ''2025-07-07'' 13,
              exRow 5 ''2025-07-07'' 2,
              exRow 4 ''2025-07-14'' 13,
              exRow 5 ''2025-07-21'' 13]\<rparr>, Inr ())"
proof -
  have m: "getDay 20248 = 1" by (simp add: getDay_def)
  have y: "99 < getFullYear 20248" by (simp add: getFullYear_2025)
  have z: "(0::int) \<le> 0" "0 < msPerDay" by (simp_all add: msPerDay_def)
  have two: "(2::nat) \<le> 2" by simp
  from worked_example_east_of_utc [OF m y z two] show ?thesis
    by (simp add: workedExamplePlan_def getWeekStart_2025)
qed

text \<open>The same run five hours west of UTC: the arrival date is read as Sunday 2025-06-08.\<close>

lemma worked_example_utc_minus_5:
  "autoPlanJob (- 18000000) 2 (workedExample 20248) 1 =
     Some ((workedExample 20248)\<lparr>schedules :=
             [exRow 1 ''2025-06-02'' 15,
              exRow 2 ''2025-06-09'' 2,
              exRow 3 ''2025-06-16'' 2,
              exRow 4 ''2025-06-23'' 2,
              exRow 2 ''2025-06-23'' 13,
              exRow 3 ''2025-06-30'' 13,
              exRow 5 ''2025-06-30'' 2,
              exRow 4 ''2025-07-07'' 13,
              exRow 5 ''2025-07-14'' 13]\<rparr>, Inr ())"
proof -
  have ds: "dateOfString (- 18000000) 20248 = 20247"
    using dateOfString_west [of "- 18000000" 20248] by (simp add: msPerDay_def)
  have loop: "whileLoop (- 18000000) (Suc (Suc 0)) 1 (exJob 20248) pipe5 0
                [initialBatch (exJob 20248)] [] =
      Some ([exRow 1 ''2025-06-02'' 15,
              exRow 2 ''2025-06-09'' 2,
              exRow 3 ''2025-06-16'' 2,
              exRow 4 ''2025-06-23'' 2,
              exRow 2 ''2025-06-23'' 13,
              exRow 3 ''2025-06-30'' 13,
              exRow 5 ''2025-06-30'' 2,
              exRow 4 ''2025-07-07'' 13,
              exRow 5 ''2025-07-14'' 13], Inr 6)"
    unfolding worked_example_loop [OF ds addBusinessDays_2025] getWeekStart_2025_inside
    by (simp add: worked_example_rows)
  have e: "(workedExample 20248)\<lparr>schedules := []\<rparr> = workedExample 20248"
    by (simp add: workedExample_def)
  have two: "(2::nat) \<le> 2" by simp
  from worked_example_call [OF loop _ two, of "[]"] e show ?thesis by simp
qed

text \<open>
  C1 fails on the code west of UTC. The job arrives on Monday 2025-06-09, the date of the
  worked example in \<^verbatim>\<open>server/tests/testRunner.ts\<close>, whose expected rows start with Stage 1 =
  15 in the week of 2025-06-09. Read in UTC, the call stores exactly those rows. Five
  hours west of UTC (\<open>tz = -18000000\<close>), \<^verbatim>\<open>new Date('2025-06-09')\<close> is Sunday 2025-06-08,
  19:00 local time, and every row lands one week early: Stage 1 = 15 is stored for the
  week of 2025-06-02, the week before the job arrives.
\<close>

theorem worked_example_west_of_utc:
  "civil_from_days 20248 = (2025, 6, 9) \<and> getDay 20248 = 1 \<and>
   dateOfString 0 20248 = 20248 \<and> dateOfString (- 18000000) 20248 = 20247 \<and>
   autoPlanJob 0 2 (workedExample 20248) 1 =
     Some ((workedExample 20248)\<lparr>schedules :=
             [exRow 1 ''2025-06-09'' 15,
              exRow 2 ''2025-06-16'' 2,
              exRow 3 ''2025-06-23'' 2,
              exRow 4 ''2025-06-30'' 2,
              exRow 2 ''2025-06-30'' 13,
              exRow 3 ''2025-07-07'' 13,
              exRow 5 ''2025-07-07'' 2,
              exRow 4 ''2025-07-14'' 13,
              exRow 5 ''2025-07-21'' 13]\<rparr>, Inr ()) \<and>
   autoPlanJob (- 18000000) 2 (workedExample 20248) 1 =
     Some ((workedExample 20248)\<lparr>schedules :=
             [exRow 1 ''2025-06-02'' 15,
              exRow 2 ''2025-06-09'' 2,
              exRow 3 ''2025-06-16'' 2,
              exRow 4 ''2025-06-23'' 2,
              exRow 2 ''2025-06-23'' 13,
              exRow 3 ''2025-06-30'' 13,
              exRow 5 ''2025-06-30'' 2,
              exRow 4 ''2025-07-07'' 13,
              exRow 5 ''2025-07-14'' 13]\<rparr>, Inr ())"
proof -
  have "dateOfString 0 20248 = 20248"
    using dateOfString_east [of 0 20248] by (simp add: msPerDay_def)
  moreover have "dateOfString (- 18000000) 20248 = 20247"
    using dateOfString_west [of "- 18000000" 20248] by (simp add: msPerDay_def)
  ultimately show ?thesis
    using worked_example_utc worked_example_utc_minus_5
    by (simp add: civil_2025 getDay_def)
qed

section \<open>The deadlock check\<close>

lemma load11: "loadJobStages elevenStageDb 1 = pipe11"
  by (simp add: loadJobStages_def elevenStageDb_def exStage_def exLink_def exPipe_def pipe11_def)

lemma eleven_loop:
  "whileLoop tz (Suc 0) 1 (exJob a) pipe11 0 [initialBatch (exJob a)] [] =
     Some (map (\<lambda>i. exRow i (getWeekStart (dateOfString tz a)) 15)
             [1, 2, 3, 4, 5, 6, 7, 8, 9, 10, 11],
           Inl Deadlock)"
  by (simp add: whileLoop.simps initialBatch_def sortBatches_def maxIterations_def
        processBatch_def scheduleBatch_def pipe11_def exPipe_def exStage_def at_def exJob_def Let_def
        addBusinessDays_def scheduleQuantityForWeek_def sameKey_def exRow_def)

lemma eleven_run:
  "autoPlanJob tz (Suc k) elevenStageDb 1 =
     Some (elevenStageDb\<lparr>schedules :=
             map (\<lambda>i. exRow i (getWeekStart (dateOfString tz 20241)) 15)
               [1, 2, 3, 4, 5, 6, 7, 8, 9, 10, 11]\<rparr>,
           Inl Deadlock)"
proof -
  have loop: "whileLoop tz (Suc k) 1 (exJob 20241) pipe11 0 [initialBatch (exJob 20241)] [] =
     Some (map (\<lambda>i. exRow i (getWeekStart (dateOfString tz 20241)) 15)
             [1, 2, 3, 4, 5, 6, 7, 8, 9, 10, 11],
           Inl Deadlock)"
    using whileLoop_fuel_mono [OF eleven_loop [of tz 20241], where k = k] by simp
  have j: "getJob elevenStageDb 1 = Some (exJob 20241)"
    by (simp add: getJob_def elevenStageDb_def exJob_def)
  have a: "find (\<lambda>a. at_name a = activityType (exJob 20241)) (activityTypes elevenStageDb) =
             Some \<lparr>at_id = 1, at_name = ''TEST''\<rparr>"
    by (simp add: elevenStageDb_def exJob_def)
  have s: "schedules elevenStageDb = []" by (simp add: elevenStageDb_def)
  show ?thesis
    by (simp add: autoPlanJob_def j a load11 s loop) (simp add: pipe11_def)
qed

text \<open>
  C5 fails on the code. Eleven stages in sequence with no hold form a well-formed
  pipeline whose single batch resolves in eleven iterations, one stage per iteration. All
  eleven rows are written and the batch is completed in iteration 11, and still the call
  throws "Auto-planning deadlock: no progress possible" at the end of that iteration:
  \<^verbatim>\<open>progressMade\<close> is never set, so the check fires as soon as \<^verbatim>\<open>iterations\<close> exceeds 10.
  This holds in every time zone and for every fuel; in UTC the eleven rows are in the
  week of 2025-06-02.
\<close>

theorem eleven_stages_deadlock:
  "autoPlanJob tz (Suc k) elevenStageDb 1 =
     Some (elevenStageDb\<lparr>schedules :=
             map (\<lambda>i. exRow i (getWeekStart (dateOfString tz 20241)) 15)
               [1, 2, 3, 4, 5, 6, 7, 8, 9, 10, 11]\<rparr>,
           Inl Deadlock) \<and>
   autoPlanJob 0 (Suc k) elevenStageDb 1 =
     Some (elevenStageDb\<lparr>schedules :=
             map (\<lambda>i. exRow i ''2025-06-02'' 15) [1, 2, 3, 4, 5, 6, 7, 8, 9, 10, 11]\<rparr>,
           Inl Deadlock)"
proof -
  have "dateOfString 0 20241 = 20241"
    using dateOfString_east [of 0 20241] by (simp add: msPerDay_def)
  with eleven_run [of 0 k] eleven_run [of tz k] show ?thesis
    by (simp add: getWeekStart_2025)
qed

section \<open>Errors and the stored rows\<close>

lemma scheduleBatch_error:
  "scheduleBatch tz jobId jb st i bs rows = (rows', Inl e) \<Longrightarrow> e = TypeError \<and> rows' = rows"
  by (auto simp: scheduleBatch_def Let_def split: option.splits)

lemma releaseHeldBatches_error:
  "releaseHeldBatches jobId st b w bs rows = (rows', Inl e) \<Longrightarrow> e = TypeError"
  by (induction bs arbitrary: rows)
     (auto simp: Let_def split: if_splits option.splits prod.splits sum.splits)

lemma processBatch_error:
  "processBatch tz jobId jb st i bs rows = (rows', Inl e) \<Longrightarrow> e = TypeError"
  by (auto simp: processBatch_def split: prod.splits sum.splits
           dest: scheduleBatch_error releaseHeldBatches_error)

lemma forLoop_error:
  "forLoop tz fuel jobId jb st i bs rows = Some (rows', Inl e) \<Longrightarrow> e = TypeError"
proof (induction fuel arbitrary: i bs rows)
  case 0
  then show ?case by (auto split: if_splits)
next
  case (Suc fuel)
  then show ?case
    by (auto simp: Let_def split: if_splits prod.splits sum.splits
             dest: processBatch_error)
qed

lemma whileLoop_error:
  "whileLoop tz fuel jobId jb st it bs rows = Some (rows', Inl e) \<Longrightarrow> e = TypeError \<or> e = Deadlock"
proof (induction tz fuel jobId jb st it bs rows rule: whileLoop.induct)
  case (1 tz fuel jobId jb st it bs rows)
  show ?case
  proof (cases "list_ex (\<lambda>b. \<not> schedulingCompleted b) bs \<and> it < maxIterations")
    case False
    with "1.prems" show ?thesis by (simp add: whileLoop_stop)
  next
    case True
    show ?thesis
    proof (cases "forLoop tz fuel jobId jb st 0 (sortBatches bs) rows")
      case None
      with True "1.prems" show ?thesis by (simp add: whileLoop_step)
    next
      case (Some res)
      obtain rows1 x where res: "res = (rows1, x)" by (cases res)
      show ?thesis
      proof (cases x)
        case (Inl e')
        with True Some res "1.prems" forLoop_error [of tz fuel jobId jb st 0 "sortBatches bs" rows rows1 e']
        show ?thesis by (simp add: whileLoop_step)
      next
        case (Inr bs')
        show ?thesis
        proof (cases "it + 1 > 10")
          case True
          with \<open>list_ex _ bs \<and> _\<close> Some res Inr "1.prems" show ?thesis
            by (simp add: whileLoop_step)
        next
          case False
          have "whileLoop tz fuel jobId jb st (it + 1) bs' rows1 = Some (rows', Inl e)"
            using True False Some res Inr "1.prems" by (simp add: whileLoop_step)
          with "1.IH" [OF True refl refl Some res [symmetric] Inr] False
          show ?thesis by simp
        qed
      qed
    qed
  qed
qed

lemma addBusinessDays_0 [simp]: "addBusinessDays d 0 = d"
  by (simp add: addBusinessDays_def)

section \<open>The scheduling step and the release check\<close>

lemma findIndex_never: "(\<And>x. x \<in> set xs \<Longrightarrow> \<not> P x) \<Longrightarrow> findIndex P xs = - 1"
  by (induction xs) auto

lemma findIndex_range: "- 1 \<le> findIndex P xs \<and> findIndex P xs < int (length xs)"
  by (induction xs) (auto simp: Let_def)

lemma nextStageIndexOf_cases:
  "nextStageIndexOf st b =
     (case lastScheduledStage b of
        None \<Rightarrow> 0
      | Some l \<Rightarrow> findIndex (\<lambda>s. stageId s = l) st + 1)"
  by (cases "lastScheduledStage b") (simp_all add: nextStageIndexOf_def findIndex_never)

lemma nextStageIndexOf_range:
  "0 \<le> nextStageIndexOf st b \<and> nextStageIndexOf st b \<le> int (length st)"
  using findIndex_range [of "\<lambda>s. Some (stageId s) = lastScheduledStage b" st]
  by (simp add: nextStageIndexOf_def)

lemma releaseHeldBatches_Cons_released:
  assumes "isReleasedBy batch hb"
    and "releaseHeldBatches jobId st batch w (hb # rest) rows = (rows', Inr bs')"
  shows "\<exists>rs rest'. at st (nextStageIndexOf st hb) = Some rs \<and>
           bs' = hb\<lparr>held := False, releaseQtyHeldAtStage := None,
                     lastScheduledDate := lastScheduledDate batch,
                     lastScheduledStage := Some (stageId rs),
                     schedulingCompleted :=
                       (nextStageIndexOf st hb = int (length st) - 1 \<or> schedulingCompleted hb)\<rparr> # rest' \<and>
           releaseHeldBatches jobId st batch w rest
             (scheduleQuantityForWeek jobId (stageId rs) w (qty hb) rows) = (rows', Inr rest')"
  using assms
  by (auto simp: isReleasedBy_def nextStageIndexOf_def Let_def
           split: option.splits prod.splits sum.splits)

lemma releaseHeldBatches_Cons_kept:
  assumes "\<not> isReleasedBy batch hb"
    and "releaseHeldBatches jobId st batch w (hb # rest) rows = (rows', Inr bs')"
  shows "\<exists>rest'. bs' = hb # rest' \<and>
           releaseHeldBatches jobId st batch w rest rows = (rows', Inr rest')"
  using assms
  by (auto simp: isReleasedBy_def split: prod.splits sum.splits)

lemma releaseHeldBatches_rule:
  "releaseHeldBatches jobId st batch w bs rows = (rows', Inr bs') \<Longrightarrow>
     length bs' = length bs \<and>
     (\<forall>j < length bs.
        if isReleasedBy batch (bs ! j)
        then \<exists>rs. at st (nextStageIndexOf st (bs ! j)) = Some rs \<and>
               bs' ! j = (bs ! j)\<lparr>held := False, releaseQtyHeldAtStage := None,
                     lastScheduledDate := lastScheduledDate batch,
                     lastScheduledStage := Some (stageId rs),
                     schedulingCompleted :=
                       (nextStageIndexOf st (bs ! j) = int (length st) - 1 \<or>
                        schedulingCompleted (bs ! j))\<rparr>
        else bs' ! j = bs ! j) \<and>
     rows' = foldl (\<lambda>rows b. scheduleQuantityForWeek jobId
                       (stageId (the (at st (nextStageIndexOf st b)))) w (qty b) rows)
               rows (filter (isReleasedBy batch) bs)"
proof (induction bs arbitrary: rows bs')
  case Nil
  then show ?case by simp
next
  case (Cons hb rest)
  show ?case
  proof (cases "isReleasedBy batch hb")
    case True
    from releaseHeldBatches_Cons_released [OF True Cons.prems]
    obtain rs rest' where rs: "at st (nextStageIndexOf st hb) = Some rs"
      and bs': "bs' = hb\<lparr>held := False, releaseQtyHeldAtStage := None,
                     lastScheduledDate := lastScheduledDate batch,
                     lastScheduledStage := Some (stageId rs),
                     schedulingCompleted :=
                       (nextStageIndexOf st hb = int (length st) - 1 \<or> schedulingCompleted hb)\<rparr> # rest'"
      and rec: "releaseHeldBatches jobId st batch w rest
             (scheduleQuantityForWeek jobId (stageId rs) w (qty hb) rows) = (rows', Inr rest')"
      by blast
    from Cons.IH [OF rec] True rs bs' show ?thesis
      by (auto simp: nth_Cons split: nat.splits)
  next
    case False
    from releaseHeldBatches_Cons_kept [OF False Cons.prems]
    obtain rest' where bs': "bs' = hb # rest'"
      and rec: "releaseHeldBatches jobId st batch w rest rows = (rows', Inr rest')"
      by blast
    from Cons.IH [OF rec] False bs' show ?thesis
      by (auto simp: nth_Cons split: nat.splits)
  qed
qed


lemma scheduleBatch_next_stage:
  assumes "scheduleBatch tz jobId jb st i batches rows = (rows', Inr r)"
  shows "\<exists>nextStage. at st (nextStageIndexOf st (batches ! i)) = Some nextStage"
  using assms unfolding scheduleBatch_def nextStageIndexOf_cases
  by (auto simp: Let_def split: option.splits)

lemma scheduleBatch_unfold:
  assumes "at st (nextStageIndexOf st (batches ! i)) = Some nextStage"
    and "scheduleBatch tz jobId jb st i batches rows = (rows', Inr (batches', weekStart))"
  shows "weekStart = getWeekStart (scheduleDateOf tz jb st (batches ! i)) \<and>
         rows' = scheduleQuantityForWeek jobId (stageId nextStage) weekStart
                   (case proceedWithTestQty (stage nextStage) of
                      None \<Rightarrow> qty (batches ! i) | Some P \<Rightarrow> min P (qty (batches ! i))) rows \<and>
         batches' = batches[i := (batches ! i)
              \<lparr>qty := (case proceedWithTestQty (stage nextStage) of
                         None \<Rightarrow> qty (batches ! i) | Some P \<Rightarrow> min P (qty (batches ! i))),
               lastScheduledStage := Some (stageId nextStage),
               lastScheduledDate := Some (scheduleDateOf tz jb st (batches ! i)),
               schedulingCompleted :=
                 (nextStageIndexOf st (batches ! i) = int (length st) - 1 \<or>
                  schedulingCompleted (batches ! i))\<rparr>] @
            (case proceedWithTestQty (stage nextStage) of
               None \<Rightarrow> []
             | Some P \<Rightarrow>
                 if max (qty (batches ! i) - P) 0 = 0 then []
                 else [\<lparr>qty = max (qty (batches ! i) - P) 0,
                        lastScheduledStage = lastScheduledStage (batches ! i),
                        held = True, schedulingCompleted = False,
                        lastScheduledDate = None,
                        releaseQtyHeldAtStage = releaseRemainingAtStageId (stage nextStage)\<rparr>])"
  using assms unfolding scheduleBatch_def nextStageIndexOf_cases scheduleDateOf_def
  by (auto simp: Let_def split: option.splits)

lemma scheduleBatch_result:
  assumes "i < length batches"
    and "scheduleBatch tz jobId jb st i batches rows = (rows', Inr (batches', weekStart))"
  shows "weekStart = getWeekStart (scheduleDateOf tz jb st (batches ! i)) \<and>
         lastScheduledDate (batches' ! i) = Some (scheduleDateOf tz jb st (batches ! i)) \<and>
         held (batches' ! i) = held (batches ! i) \<and>
         take (length batches) batches' = batches[i := batches' ! i] \<and>
         list_all (\<lambda>b. held b \<and> \<not> schedulingCompleted b) (drop (length batches) batches')"
proof -
  from scheduleBatch_next_stage [OF assms(2)] obtain nextStage
    where ns: "at st (nextStageIndexOf st (batches ! i)) = Some nextStage" by blast
  from scheduleBatch_unfold [OF ns assms(2)] assms(1) show ?thesis
    by (auto simp: nth_append split: option.splits)
qed

lemma heldNotCompleted_scheduleBatch:
  assumes "i < length batches" "\<not> held (batches ! i)" "heldNotCompleted batches"
    and "scheduleBatch tz jobId jb st i batches rows = (rows', Inr (batches', weekStart))"
  shows "heldNotCompleted batches' \<and> \<not> held (batches' ! i)"
proof -
  from scheduleBatch_result [OF assms(1,4)] have
    nh: "\<not> held (batches' ! i)"
    and tk: "take (length batches) batches' = batches[i := batches' ! i]"
    and dr: "list_all (\<lambda>b. held b \<and> \<not> schedulingCompleted b) (drop (length batches) batches')"
    using assms(2) by simp_all
  have "heldNotCompleted (batches[i := batches' ! i])"
    using assms(3) nh
    by (auto simp: heldNotCompleted_def list_all_iff dest!: set_update_subset_insert [THEN subsetD])
  moreover have "heldNotCompleted (drop (length batches) batches')"
    using dr by (auto simp: heldNotCompleted_def list_all_iff)
  ultimately have "heldNotCompleted (take (length batches) batches' @ drop (length batches) batches')"
    unfolding tk by (simp add: heldNotCompleted_def)
  then show ?thesis using nh by simp
qed

text \<open>
  No held batch is ever completed: the initial array has the property, and the sort and
  every round of the batch loop keep it.
\<close>

lemma heldNotCompleted_releaseHeldBatches:
  "heldNotCompleted bs \<Longrightarrow> releaseHeldBatches jobId st batch w bs rows = (rows', Inr bs') \<Longrightarrow>
     heldNotCompleted bs'"
proof (induction bs arbitrary: rows bs')
  case Nil
  then show ?case by simp
next
  case (Cons hb rest)
  from Cons.prems(1) have r: "heldNotCompleted rest" by (simp add: heldNotCompleted_def)
  show ?case
  proof (cases "isReleasedBy batch hb")
    case True
    from releaseHeldBatches_Cons_released [OF True Cons.prems(2)]
    obtain hb' rest' rows1 where bs': "bs' = hb' # rest'" and nh: "\<not> held hb'"
      and rec: "releaseHeldBatches jobId st batch w rest rows1 = (rows', Inr rest')"
      by fastforce
    from Cons.IH [OF r rec] bs' nh show ?thesis by (simp add: heldNotCompleted_def)
  next
    case False
    from releaseHeldBatches_Cons_kept [OF False Cons.prems(2)]
    obtain rest' where bs': "bs' = hb # rest'"
      and rec: "releaseHeldBatches jobId st batch w rest rows = (rows', Inr rest')"
      by blast
    from Cons.IH [OF r rec] bs' Cons.prems(1) show ?thesis by (simp add: heldNotCompleted_def)
  qed
qed

lemma heldNotCompleted_processBatch:
  assumes "i < length bs" "\<not> held (bs ! i)" "heldNotCompleted bs"
    and "processBatch tz jobId jb st i bs rows = (rows', Inr bs')"
  shows "heldNotCompleted bs'"
proof -
  from assms(4) obtain rows1 bs1 w where
    sb: "scheduleBatch tz jobId jb st i bs rows = (rows1, Inr (bs1, w))"
    and rl: "releaseHeldBatches jobId st (bs1 ! i) w bs1 rows1 = (rows', Inr bs')"
    by (auto simp: processBatch_def split: prod.splits sum.splits)
  from heldNotCompleted_scheduleBatch [OF assms(1,2,3) sb] have "heldNotCompleted bs1" by simp
  from heldNotCompleted_releaseHeldBatches [OF this rl] show ?thesis .
qed

lemma heldNotCompleted_sortBatches: "heldNotCompleted bs \<Longrightarrow> heldNotCompleted (sortBatches bs)"
  by (auto simp: heldNotCompleted_def sortBatches_def list_all_iff)

lemma heldNotCompleted_initial: "heldNotCompleted [initialBatch jb]"
  by (simp add: heldNotCompleted_def initialBatch_def)

lemma heldNotCompleted_forLoop:
  "forLoop tz fuel jobId jb st i bs rows = Some (rows', Inr bs') \<Longrightarrow> heldNotCompleted bs \<Longrightarrow>
     heldNotCompleted bs'"
proof (induction fuel arbitrary: i bs rows)
  case 0
  then show ?case by (auto split: if_splits)
next
  case (Suc fuel)
  show ?case
  proof (cases "i < length bs")
    case False
    with Suc.prems show ?thesis by simp
  next
    case True
    show ?thesis
    proof (cases "held (bs ! i) \<or> schedulingCompleted (bs ! i)")
      case skip: True
      with True Suc.prems(1) have "forLoop tz fuel jobId jb st (i + 1) bs rows = Some (rows', Inr bs')"
        by (simp add: Let_def)
      from Suc.IH [OF this Suc.prems(2)] show ?thesis .
    next
      case False
      obtain rows1 r where pb: "processBatch tz jobId jb st i bs rows = (rows1, r)"
        by (cases "processBatch tz jobId jb st i bs rows")
      show ?thesis
      proof (cases r)
        case (Inl e)
        with True False pb Suc.prems(1) show ?thesis by (simp add: Let_def)
      next
        case (Inr bs1)
        with True False pb Suc.prems(1)
        have rec: "forLoop tz fuel jobId jb st (i + 1) bs1 rows1 = Some (rows', Inr bs')"
          by (simp add: Let_def)
        from pb Inr have "processBatch tz jobId jb st i bs rows = (rows1, Inr bs1)" by simp
        from heldNotCompleted_processBatch [OF True _ Suc.prems(2) this] False
        have "heldNotCompleted bs1" by simp
        from Suc.IH [OF rec this] show ?thesis .
      qed
    qed
  qed
qed

text \<open>
  C4. When the scheduling step succeeds for the batch at index \<open>i\<close>, of quantity \<open>q\<close>, the
  next stage is the pipeline entry at the batch's position. If that stage defines
  \<^verbatim>\<open>proceedWithTestQty = P\<close>, the quantity written for the stage and kept by the batch is
  \<open>min P q\<close> and the held quantity is \<open>max (q - P) 0\<close>; otherwise the whole \<open>q\<close> advances and
  nothing is held. A held quantity other than 0 is pushed as one new batch at the end of
  the array: that quantity, the last-scheduled stage the advancing batch had before the
  step, held, not completed, no date, and the next stage's
  \<^verbatim>\<open>releaseRemainingAtStageId\<close> as release trigger. Nothing else in the array changes.
\<close>

theorem scheduleBatch_split:
  assumes "i < length batches"
    and "scheduleBatch tz jobId jb st i batches rows = (rows', Inr (batches', weekStart))"
  shows "\<exists>nextStage.
           at st (nextStageIndexOf st (batches ! i)) = Some nextStage \<and>
           (let q = qty (batches ! i);
                advancing = (case proceedWithTestQty (stage nextStage) of
                               None \<Rightarrow> q | Some P \<Rightarrow> min P q);
                heldQty = (case proceedWithTestQty (stage nextStage) of
                             None \<Rightarrow> 0 | Some P \<Rightarrow> max (q - P) 0)
            in rows' = scheduleQuantityForWeek jobId (stageId nextStage) weekStart advancing rows \<and>
               advancing + heldQty = q \<and>
               qty (batches' ! i) = advancing \<and>
               lastScheduledStage (batches' ! i) = Some (stageId nextStage) \<and>
               held (batches' ! i) = held (batches ! i) \<and>
               take (length batches) batches' = batches[i := batches' ! i] \<and>
               drop (length batches) batches' =
                 (if heldQty = 0 then []
                  else [\<lparr>qty = heldQty,
                         lastScheduledStage = lastScheduledStage (batches ! i),
                         held = True, schedulingCompleted = False,
                         lastScheduledDate = None,
                         releaseQtyHeldAtStage = releaseRemainingAtStageId (stage nextStage)\<rparr>]))"
  using assms
  unfolding scheduleBatch_def nextStageIndexOf_cases
  by (auto simp: Let_def nth_append split: option.splits)

text \<open>
  Iteration 2 of the worked example: 15 samples enter Stage 2, which lets 2 proceed; 13
  are held behind, still at Stage 1, to be released at Stage 4.
\<close>

theorem scheduleBatch_split_witness:
  "scheduleBatch 0 1 (exJob 20241) pipe5 0 [mkBatch 15 (Some 1) False False (Some 20241) None] [] =
     ([exRow 2 ''2025-06-09'' 2],
      Inr ([mkBatch 2 (Some 2) False False (Some 20248) None,
            mkBatch 13 (Some 1) True False None (Some 4)], ''2025-06-09'')) \<and>
   at pipe5 (nextStageIndexOf pipe5 (mkBatch 15 (Some 1) False False (Some 20241) None)) =
     Some (exPipe 2 5 (Some 2) (Some 4)) \<and>
   (\<exists>nextStage. at pipe5 (nextStageIndexOf pipe5 (mkBatch 15 (Some 1) False False (Some 20241) None)) =
      Some nextStage \<and> proceedWithTestQty (stage nextStage) = Some 2)"
proof -
  have m: "getDay 20241 = 1" by (simp add: getDay_def)
  have ab: "addBusinessDays 20241 5 = 20248"
    using addBusinessDays_monday_5 [OF m] by simp
  have e: "scheduleBatch 0 1 (exJob 20241) pipe5 0
             [mkBatch 15 (Some 1) False False (Some 20241) None] [] =
     ([exRow 2 ''2025-06-09'' 2],
      Inr ([mkBatch 2 (Some 2) False False (Some 20248) None,
            mkBatch 13 (Some 1) True False None (Some 4)], ''2025-06-09''))"
    by (simp add: ex_eval ab getWeekStart_2025 scheduleQuantityForWeek_def exRow_def)
  have n: "at pipe5 (nextStageIndexOf pipe5 (mkBatch 15 (Some 1) False False (Some 20241) None)) =
     Some (exPipe 2 5 (Some 2) (Some 4))"
    by (simp add: nextStageIndexOf_def ex_eval)
  have l: "0 < length [mkBatch 15 (Some 1) False False (Some 20241) None]" by simp
  from scheduleBatch_split [OF l e] n e show ?thesis
    by (auto simp: exPipe_def exStage_def)
qed

text \<open>
  C3. In one round of the batch loop for a batch that is not held, the batch is
  scheduled into a stage for the date \<open>forDate\<close>, week \<open>getWeekStart forDate\<close>. Then every
  batch of the array (the one just pushed included) that is held with that stage as its
  release trigger is released: it moves to the pipeline entry at its own position, the
  entry after its own last-scheduled stage; it is no longer held, its trigger is
  cleared, its date is \<open>forDate\<close>, and it is completed exactly when that entry is the
  last of the pipeline. Its quantity is written for that entry's stage in the same week.
  All other batches stay as they are, and the rows are written in array order. The two
  hypotheses on the array hold whenever the loop runs a round: the loop skips held
  batches, and no held batch is completed (\<open>heldNotCompleted_forLoop\<close>).
\<close>

theorem processBatch_release_rule:
  assumes "i < length batches" and "\<not> held (batches ! i)" and "heldNotCompleted batches"
    and "processBatch tz jobId jb st i batches rows = (rows'', Inr batches'')"
  shows "\<exists>rows' batches' weekStart forDate.
     scheduleBatch tz jobId jb st i batches rows = (rows', Inr (batches', weekStart)) \<and>
     lastScheduledDate (batches' ! i) = Some forDate \<and> weekStart = getWeekStart forDate \<and>
     length batches'' = length batches' \<and>
     (\<forall>j < length batches'.
        if held (batches' ! j) \<and>
           releaseQtyHeldAtStage (batches' ! j) = lastScheduledStage (batches' ! i)
        then \<exists>releaseToStage.
               at st (nextStageIndexOf st (batches' ! j)) = Some releaseToStage \<and>
               batches'' ! j = (batches' ! j)
                 \<lparr>held := False, releaseQtyHeldAtStage := None,
                  lastScheduledDate := Some forDate,
                  lastScheduledStage := Some (stageId releaseToStage),
                  schedulingCompleted :=
                    (nextStageIndexOf st (batches' ! j) = int (length st) - 1)\<rparr>
        else batches'' ! j = batches' ! j) \<and>
     rows'' = foldl (\<lambda>rows b. scheduleQuantityForWeek jobId
                        (stageId (the (at st (nextStageIndexOf st b)))) weekStart (qty b) rows)
                rows' (filter (isReleasedBy (batches' ! i)) batches')"
proof -
  from assms(4) obtain rows' batches' weekStart where
    sb: "scheduleBatch tz jobId jb st i batches rows = (rows', Inr (batches', weekStart))"
    and rl: "releaseHeldBatches jobId st (batches' ! i) weekStart batches' rows' = (rows'', Inr batches'')"
    by (auto simp: processBatch_def split: prod.splits sum.splits)
  from scheduleBatch_result [OF assms(1) sb] obtain forDate where
    d: "lastScheduledDate (batches' ! i) = Some forDate" and w: "weekStart = getWeekStart forDate"
    by blast
  have hn: "heldNotCompleted batches'"
    using heldNotCompleted_scheduleBatch [OF assms(1,2,3) sb] by simp
  have nc: "held (batches' ! j) \<Longrightarrow> \<not> schedulingCompleted (batches' ! j)" if "j < length batches'" for j
    using hn that by (auto simp: heldNotCompleted_def list_all_length)
  note rule = releaseHeldBatches_rule [OF rl]
  have "\<forall>j < length batches'.
        if held (batches' ! j) \<and>
           releaseQtyHeldAtStage (batches' ! j) = lastScheduledStage (batches' ! i)
        then \<exists>releaseToStage.
               at st (nextStageIndexOf st (batches' ! j)) = Some releaseToStage \<and>
               batches'' ! j = (batches' ! j)
                 \<lparr>held := False, releaseQtyHeldAtStage := None,
                  lastScheduledDate := Some forDate,
                  lastScheduledStage := Some (stageId releaseToStage),
                  schedulingCompleted :=
                    (nextStageIndexOf st (batches' ! j) = int (length st) - 1)\<rparr>
        else batches'' ! j = batches' ! j"
  proof (intro allI impI)
    fix j assume j: "j < length batches'"
    from rule j have
      r: "if isReleasedBy (batches' ! i) (batches' ! j)
        then \<exists>rs. at st (nextStageIndexOf st (batches' ! j)) = Some rs \<and>
               batches'' ! j = (batches' ! j)\<lparr>held := False, releaseQtyHeldAtStage := None,
                     lastScheduledDate := lastScheduledDate (batches' ! i),
                     lastScheduledStage := Some (stageId rs),
                     schedulingCompleted :=
                       (nextStageIndexOf st (batches' ! j) = int (length st) - 1 \<or>
                        schedulingCompleted (batches' ! j))\<rparr>
        else batches'' ! j = batches' ! j"
      by blast
    show "if held (batches' ! j) \<and>
           releaseQtyHeldAtStage (batches' ! j) = lastScheduledStage (batches' ! i)
        then \<exists>releaseToStage.
               at st (nextStageIndexOf st (batches' ! j)) = Some releaseToStage \<and>
               batches'' ! j = (batches' ! j)
                 \<lparr>held := False, releaseQtyHeldAtStage := None,
                  lastScheduledDate := Some forDate,
                  lastScheduledStage := Some (stageId releaseToStage),
                  schedulingCompleted :=
                    (nextStageIndexOf st (batches' ! j) = int (length st) - 1)\<rparr>
        else batches'' ! j = batches' ! j"
    proof (cases "isReleasedBy (batches' ! i) (batches' ! j)")
      case True
      then have h: "held (batches' ! j)" by (simp add: isReleasedBy_def)
      from nc [OF j h] r True d show ?thesis by (auto simp: isReleasedBy_def)
    next
      case False
      with r show ?thesis by (auto simp: isReleasedBy_def)
    qed
  qed
  with sb d w rule show ?thesis by blast
qed

text \<open>
  Iteration 4 of the worked example: the 2 samples reach Stage 4 in the week of
  2025-06-23, and the 13 held behind at Stage 1 are released into Stage 2 in that week.
\<close>

theorem processBatch_release_rule_witness:
  "processBatch 0 1 (exJob 20241) pipe5 0
     [mkBatch 2 (Some 3) False False (Some 20255) None,
      mkBatch 13 (Some 1) True False None (Some 4)] [] =
     ([exRow 4 ''2025-06-23'' 2, exRow 2 ''2025-06-23'' 13],
      Inr [mkBatch 2 (Some 4) False False (Some 20262) None,
           mkBatch 13 (Some 2) False False (Some 20262) None]) \<and>
   (\<exists>rows' batches' weekStart.
      scheduleBatch 0 1 (exJob 20241) pipe5 0
        [mkBatch 2 (Some 3) False False (Some 20255) None,
         mkBatch 13 (Some 1) True False None (Some 4)] [] = (rows', Inr (batches', weekStart)))"
proof -
  have m: "getDay 20255 = 1" by (simp add: getDay_def)
  have ab: "addBusinessDays 20255 5 = 20262"
    using addBusinessDays_monday_5 [OF m] by simp
  have e: "processBatch 0 1 (exJob 20241) pipe5 0
     [mkBatch 2 (Some 3) False False (Some 20255) None,
      mkBatch 13 (Some 1) True False None (Some 4)] [] =
     ([exRow 4 ''2025-06-23'' 2, exRow 2 ''2025-06-23'' 13],
      Inr [mkBatch 2 (Some 4) False False (Some 20262) None,
           mkBatch 13 (Some 2) False False (Some 20262) None])"
    by (simp add: ex_eval ab getWeekStart_2025 scheduleQuantityForWeek_def exRow_def sameKey_def)
  have l: "0 < length [mkBatch 2 (Some 3) False False (Some 20255) None,
      mkBatch 13 (Some 1) True False None (Some 4)]" by simp
  have h: "\<not> held ([mkBatch 2 (Some 3) False False (Some 20255) None,
      mkBatch 13 (Some 1) True False None (Some 4)] ! 0)" by (simp add: mkBatch_def)
  have c: "heldNotCompleted [mkBatch 2 (Some 3) False False (Some 20255) None,
      mkBatch 13 (Some 1) True False None (Some 4)]"
    by (simp add: heldNotCompleted_def mkBatch_def)
  from processBatch_release_rule [OF l h c e] e show ?thesis by blast
qed

section \<open>Conservation\<close>

lemma sameKey_filter:
  "filter (sameKey jid s w) rows =
     filter (\<lambda>r. (sch_stageId r, sch_weekStart r) = (s, w)) (filter (\<lambda>r. sch_jobId r = jid) rows)"
  by (induction rows) (auto simp: sameKey_def)

lemma distinct_map_filter_le1:
  "distinct (map f xs) \<Longrightarrow> length (filter (\<lambda>x. f x = k) xs) \<le> Suc 0"
proof (induction xs)
  case Nil
  then show ?case by simp
next
  case (Cons x xs)
  show ?case
  proof (cases "f x = k")
    case True
    from Cons.prems have "f x \<notin> f ` set xs" by simp
    with True have "\<And>y. y \<in> set xs \<Longrightarrow> f y \<noteq> k" by blast
    then have "filter (\<lambda>x. f x = k) xs = []"
      by (simp add: filter_empty_conv)
    with True show ?thesis by simp
  next
    case False
    with Cons show ?thesis by simp
  qed
qed

lemma keysUnique_match:
  assumes "keysUnique jid rows" and "filter (sameKey jid s w) rows = e # es"
  shows "es = []"
proof -
  have "length (filter (sameKey jid s w) rows) \<le> Suc 0"
    unfolding sameKey_filter using assms(1) unfolding keysUnique_def
    by (rule distinct_map_filter_le1)
  with assms(2) show ?thesis by simp
qed

lemma keysUnique_scheduleQuantityForWeek:
  assumes "keysUnique jid rows"
  shows "keysUnique jid (scheduleQuantityForWeek jid s w q rows)"
proof (cases "filter (sameKey jid s w) rows")
  case Nil
  then have "(s, w) \<notin> set (map (\<lambda>r. (sch_stageId r, sch_weekStart r))
                 (filter (\<lambda>r. sch_jobId r = jid) rows))"
    by (auto simp: filter_empty_conv sameKey_def)
  with assms Nil show ?thesis
    by (simp add: scheduleQuantityForWeek_def keysUnique_def)
next
  case (Cons e es)
  have "map (\<lambda>r. (sch_stageId r, sch_weekStart r))
          (filter (\<lambda>r. sch_jobId r = jid)
             (map (\<lambda>r. if sameKey jid s w r then r\<lparr>scheduledSamples := v\<rparr> else r) rows)) =
        map (\<lambda>r. (sch_stageId r, sch_weekStart r)) (filter (\<lambda>r. sch_jobId r = jid) rows)" for v
    by (induction rows) auto
  with assms Cons show ?thesis
    by (simp add: scheduleQuantityForWeek_def keysUnique_def)
qed

lemma stageTotal_update:
  "stageTotal jid s' (map (\<lambda>r. if sameKey jid s w r then r\<lparr>scheduledSamples := v\<rparr> else r) rows) =
     stageTotal jid s' rows +
       (if s' = s then sum_list (map (\<lambda>r. v - scheduledSamples r) (filter (sameKey jid s w) rows))
        else 0)"
  by (induction rows) (auto simp: stageTotal_def sameKey_def [abs_def])

lemma stageTotal_scheduleQuantityForWeek:
  assumes "keysUnique jid rows"
  shows "stageTotal jid s' (scheduleQuantityForWeek jid s w q rows) =
           stageTotal jid s' rows + (if s' = s then q else 0)"
proof (cases "filter (sameKey jid s w) rows")
  case Nil
  then show ?thesis by (simp add: scheduleQuantityForWeek_def stageTotal_def)
next
  case (Cons e es)
  with keysUnique_match [OF assms Cons] have f: "filter (sameKey jid s w) rows = [e]" by simp
  show ?thesis
    by (simp add: scheduleQuantityForWeek_def f stageTotal_update)
qed

lemma findIndex_distinct:
  "distinct (map f xs) \<Longrightarrow> k < length xs \<Longrightarrow> findIndex (\<lambda>x. f x = f (xs ! k)) xs = int k"
proof (induction xs arbitrary: k)
  case Nil
  then show ?case by simp
next
  case (Cons x xs)
  show ?case
  proof (cases k)
    case 0
    then show ?thesis by simp
  next
    case (Suc j)
    with Cons.prems have j: "j < length xs" and d: "distinct (map f xs)" by simp_all
    have "f x \<noteq> f (xs ! j)" using Cons.prems(1) j by (auto simp: image_iff)
    with Cons.IH [OF d j] Suc show ?thesis by (simp add: Let_def)
  qed
qed

lemma at_Some:
  "at xs p = Some x \<Longrightarrow> 0 \<le> p \<and> p < int (length xs) \<and> x = xs ! nat p"
  by (auto simp: at_def split: if_splits)

lemma nextStageIndexOf_scheduled:
  assumes "distinct (map stageId st)" and "at st p = Some nextStage"
    and "lastScheduledStage b = Some (stageId nextStage)"
  shows "nextStageIndexOf st b = p + 1"
proof -
  from at_Some [OF assms(2)] have p: "0 \<le> p" "nat p < length st" "nextStage = st ! nat p"
    by auto
  have "findIndex (\<lambda>s. stageId s = stageId (st ! nat p)) st = int (nat p)"
    using assms(1) p(2) by (rule findIndex_distinct)
  with p assms(3) show ?thesis by (simp add: nextStageIndexOf_def)
qed

lemma stageId_eq_iff:
  assumes "distinct (map stageId st)" "at st p = Some nextStage" "k < length st"
  shows "stageId (st ! k) = stageId nextStage \<longleftrightarrow> int k = p"
proof -
  from at_Some [OF assms(2)] have p: "0 \<le> p" "nat p < length st" "nextStage = st ! nat p"
    by auto
  have "map stageId st ! k = map stageId st ! nat p \<longleftrightarrow> k = nat p"
    using assms(1,3) p(2) by (intro nth_eq_iff_index_eq) simp_all
  with p assms(3) show ?thesis by auto
qed

lemma nextStageIndexOf_cong:
  "lastScheduledStage b = lastScheduledStage b' \<Longrightarrow> nextStageIndexOf st b = nextStageIndexOf st b'"
  by (simp add: nextStageIndexOf_def)

lemma pendingAt_append: "pendingAt st k (bs @ cs) = pendingAt st k bs + pendingAt st k cs"
  by (simp add: pendingAt_def)

lemma sum_list_map_update:
  fixes f :: "'a \<Rightarrow> int"
  shows "i < length xs \<Longrightarrow> sum_list (map f (xs[i := y])) = sum_list (map f xs) - f (xs ! i) + f y"
proof (induction xs arbitrary: i)
  case Nil
  then show ?case by simp
next
  case (Cons x xs)
  then show ?case by (cases i) simp_all
qed

lemma pendingAt_update:
  "i < length bs \<Longrightarrow>
     pendingAt st k (bs[i := b']) =
       pendingAt st k bs - (if nextStageIndexOf st (bs ! i) \<le> k then qty (bs ! i) else 0)
         + (if nextStageIndexOf st b' \<le> k then qty b' else 0)"
  unfolding pendingAt_def by (rule sum_list_map_update)

lemma sum_list_partition:
  fixes f :: "'a \<Rightarrow> int"
  shows "sum_list (map f (filter P xs)) + sum_list (map f (filter (\<lambda>x. \<not> P x) xs)) = sum_list (map f xs)"
  by (induction xs) simp_all

lemma pendingAt_sortBatches: "pendingAt st k (sortBatches bs) = pendingAt st k bs"
  using sum_list_partition [of "\<lambda>b. if nextStageIndexOf st b \<le> k then qty b else 0" held bs]
  by (simp add: pendingAt_def sortBatches_def)

lemma set_sortBatches: "set (sortBatches bs) = set bs"
  by (auto simp: sortBatches_def)

lemma planInv_sortBatches: "planInv st jid Q bs rows \<Longrightarrow> planInv st jid Q (sortBatches bs) rows"
  by (simp add: planInv_def pendingAt_sortBatches set_sortBatches)


lemma pendingAt_Cons:
  "pendingAt st k (b # bs) = (if nextStageIndexOf st b \<le> k then qty b else 0) + pendingAt st k bs"
  by (simp add: pendingAt_def)

lemma planInv_scheduleBatch:
  assumes d: "distinct (map stageId st)" and i: "i < length bs"
    and inv: "planInv st jid Q bs rows"
    and sb: "scheduleBatch tz jid jb st i bs rows = (rows', Inr (bs', w))"
  shows "planInv st jid Q bs' rows'"
proof -
  let ?b = "bs ! i"
  let ?p = "nextStageIndexOf st ?b"
  let ?n = "int (length st)"
  from scheduleBatch_next_stage [OF sb] obtain nextStage
    where ns: "at st ?p = Some nextStage" by blast
  from at_Some [OF ns] have p: "0 \<le> ?p" "?p < ?n" by simp_all
  define a where "a = (case proceedWithTestQty (stage nextStage) of
                         None \<Rightarrow> qty ?b | Some P \<Rightarrow> min P (qty ?b))"
  define b' where "b' = ?b\<lparr>qty := a, lastScheduledStage := Some (stageId nextStage),
               lastScheduledDate := Some (scheduleDateOf tz jb st ?b),
               schedulingCompleted := (?p = ?n - 1 \<or> schedulingCompleted ?b)\<rparr>"
  define pushed where "pushed = (case proceedWithTestQty (stage nextStage) of
               None \<Rightarrow> []
             | Some P \<Rightarrow>
                 if max (qty ?b - P) 0 = 0 then []
                 else [\<lparr>qty = max (qty ?b - P) 0,
                        lastScheduledStage = lastScheduledStage ?b,
                        held = True, schedulingCompleted = False,
                        lastScheduledDate = None,
                        releaseQtyHeldAtStage = releaseRemainingAtStageId (stage nextStage)\<rparr>])"
  from scheduleBatch_unfold [OF ns sb]
  have rows': "rows' = scheduleQuantityForWeek jid (stageId nextStage) w a rows"
    and bs': "bs' = bs[i := b'] @ pushed"
    by (simp_all add: a_def b'_def pushed_def)
  have posb': "nextStageIndexOf st b' = ?p + 1"
    using d ns by (rule nextStageIndexOf_scheduled) (simp add: b'_def)
  have qb': "qty b' = a" by (simp add: b'_def)
  have pushed_sum: "pendingAt st k pushed = (if ?p \<le> k then qty ?b - a else 0)" for k
  proof (cases "proceedWithTestQty (stage nextStage)")
    case None
    then show ?thesis by (simp add: pushed_def a_def pendingAt_def)
  next
    case (Some P)
    show ?thesis
    proof (cases "max (qty ?b - P) 0 = 0")
      case True
      with Some show ?thesis by (auto simp: pushed_def a_def pendingAt_def)
    next
      case False
      have "nextStageIndexOf st \<lparr>qty = max (qty ?b - P) 0,
                        lastScheduledStage = lastScheduledStage ?b,
                        held = True, schedulingCompleted = False,
                        lastScheduledDate = None,
                        releaseQtyHeldAtStage = releaseRemainingAtStageId (stage nextStage)\<rparr> = ?p"
        by (rule nextStageIndexOf_cong) simp
      with Some False show ?thesis by (auto simp: pushed_def a_def pendingAt_def)
    qed
  qed
  have pushed_nc: "\<not> schedulingCompleted x" if "x \<in> set pushed" for x
    using that by (auto simp: pushed_def split: option.splits if_splits)
  from inv have ku: "keysUnique jid rows"
    and tot: "\<And>k. k < length st \<Longrightarrow>
                stageTotal jid (stageId (st ! k)) rows + pendingAt st (int k) bs = Q"
    and cp: "\<And>x. x \<in> set bs \<Longrightarrow> schedulingCompleted x \<Longrightarrow> nextStageIndexOf st x = ?n"
    by (auto simp: planInv_def)
  have ku': "keysUnique jid rows'"
    unfolding rows' using ku by (rule keysUnique_scheduleQuantityForWeek)
  have tot': "stageTotal jid (stageId (st ! k)) rows' + pendingAt st (int k) bs' = Q"
    if k: "k < length st" for k
  proof -
    have t: "stageTotal jid (stageId (st ! k)) rows' =
               stageTotal jid (stageId (st ! k)) rows + (if int k = ?p then a else 0)"
      unfolding rows' using stageId_eq_iff [OF d ns k]
      by (simp add: stageTotal_scheduleQuantityForWeek [OF ku])
    have pe: "pendingAt st (int k) bs' =
                pendingAt st (int k) bs - (if ?p \<le> int k then qty ?b else 0)
                  + (if ?p + 1 \<le> int k then a else 0)
                  + (if ?p \<le> int k then qty ?b - a else 0)"
      unfolding bs' pendingAt_append pendingAt_update [OF i] posb' qb' pushed_sum ..
    from tot [OF k] t pe show ?thesis by (auto split: if_splits)
  qed
  have cp': "nextStageIndexOf st x = ?n" if x: "x \<in> set bs'" "schedulingCompleted x" for x
  proof -
    from x(1) have "x \<in> set (bs[i := b']) \<or> x \<in> set pushed" by (simp add: bs')
    then consider "x = b'" | "x \<in> set bs" | "x \<in> set pushed"
      using set_update_subset_insert [of bs i b'] by blast
    then show ?thesis
    proof cases
      case 1
      have "\<not> schedulingCompleted ?b"
      proof
        assume "schedulingCompleted ?b"
        with cp [of ?b] i have "?p = ?n" by simp
        with p show False by simp
      qed
      with x(2) 1 have "?p = ?n - 1" by (simp add: b'_def)
      with posb' 1 show ?thesis by simp
    next
      case 2
      with cp x(2) show ?thesis by simp
    next
      case 3
      with pushed_nc x(2) show ?thesis by blast
    qed
  qed
  from ku' tot' cp' show ?thesis by (simp add: planInv_def)
qed

lemma planInv_release_aux:
  assumes d: "distinct (map stageId st)"
  shows "releaseHeldBatches jid st batch w bs rows = (rows', Inr bs') \<Longrightarrow>
     keysUnique jid rows \<Longrightarrow>
     (\<And>x. x \<in> set bs \<Longrightarrow> schedulingCompleted x \<Longrightarrow> nextStageIndexOf st x = int (length st)) \<Longrightarrow>
     keysUnique jid rows' \<and>
     (\<forall>k < length st. stageTotal jid (stageId (st ! k)) rows' + pendingAt st (int k) bs' =
                      stageTotal jid (stageId (st ! k)) rows + pendingAt st (int k) bs) \<and>
     (\<forall>x \<in> set bs'. schedulingCompleted x \<longrightarrow> nextStageIndexOf st x = int (length st))"
proof (induction bs arbitrary: rows bs')
  case Nil
  then show ?case by simp
next
  case (Cons hb rest)
  let ?n = "int (length st)"
  let ?p = "nextStageIndexOf st hb"
  have cprest: "\<And>x. x \<in> set rest \<Longrightarrow> schedulingCompleted x \<Longrightarrow> nextStageIndexOf st x = ?n"
    using Cons.prems(3) by simp
  show ?case
  proof (cases "isReleasedBy batch hb")
    case True
    from releaseHeldBatches_Cons_released [OF True Cons.prems(1)]
    obtain rs rest' where rs: "at st ?p = Some rs"
      and bs': "bs' = hb\<lparr>held := False, releaseQtyHeldAtStage := None,
                     lastScheduledDate := lastScheduledDate batch,
                     lastScheduledStage := Some (stageId rs),
                     schedulingCompleted := (?p = ?n - 1 \<or> schedulingCompleted hb)\<rparr> # rest'"
      and rec: "releaseHeldBatches jid st batch w rest
             (scheduleQuantityForWeek jid (stageId rs) w (qty hb) rows) = (rows', Inr rest')"
      by blast
    define hb' where "hb' = hb\<lparr>held := False, releaseQtyHeldAtStage := None,
                     lastScheduledDate := lastScheduledDate batch,
                     lastScheduledStage := Some (stageId rs),
                     schedulingCompleted := (?p = ?n - 1 \<or> schedulingCompleted hb)\<rparr>"
    let ?rows1 = "scheduleQuantityForWeek jid (stageId rs) w (qty hb) rows"
    from at_Some [OF rs] have p: "0 \<le> ?p" "?p < ?n" by simp_all
    have ku1: "keysUnique jid ?rows1"
      using Cons.prems(2) by (rule keysUnique_scheduleQuantityForWeek)
    from Cons.IH [OF rec ku1 cprest]
    have ku': "keysUnique jid rows'"
      and tot: "\<And>k. k < length st \<Longrightarrow>
                  stageTotal jid (stageId (st ! k)) rows' + pendingAt st (int k) rest' =
                  stageTotal jid (stageId (st ! k)) ?rows1 + pendingAt st (int k) rest"
      and cp: "\<And>x. x \<in> set rest' \<Longrightarrow> schedulingCompleted x \<Longrightarrow> nextStageIndexOf st x = ?n"
      by auto
    have pos': "nextStageIndexOf st hb' = ?p + 1"
      using d rs by (rule nextStageIndexOf_scheduled) (simp add: hb'_def)
    have q': "qty hb' = qty hb" by (simp add: hb'_def)
    have "\<not> schedulingCompleted hb"
    proof
      assume "schedulingCompleted hb"
      with Cons.prems(3) [of hb] have "?p = ?n" by simp
      with p show False by simp
    qed
    then have c': "schedulingCompleted hb' \<Longrightarrow> nextStageIndexOf st hb' = ?n"
      using pos' by (simp add: hb'_def)
    have tot': "stageTotal jid (stageId (st ! k)) rows' + pendingAt st (int k) (hb' # rest') =
                stageTotal jid (stageId (st ! k)) rows + pendingAt st (int k) (hb # rest)"
      if k: "k < length st" for k
    proof -
      have t: "stageTotal jid (stageId (st ! k)) ?rows1 =
                 stageTotal jid (stageId (st ! k)) rows + (if int k = ?p then qty hb else 0)"
        using stageId_eq_iff [OF d rs k]
        by (simp add: stageTotal_scheduleQuantityForWeek [OF Cons.prems(2)])
      from tot [OF k] t show ?thesis
        by (auto simp: pendingAt_Cons pos' q' split: if_splits)
    qed
    from ku' tot' cp c' show ?thesis unfolding bs' hb'_def [symmetric] by auto
  next
    case False
    from releaseHeldBatches_Cons_kept [OF False Cons.prems(1)]
    obtain rest' where bs': "bs' = hb # rest'"
      and rec: "releaseHeldBatches jid st batch w rest rows = (rows', Inr rest')"
      by blast
    from Cons.IH [OF rec Cons.prems(2) cprest] Cons.prems(3) [of hb] show ?thesis
      unfolding bs' by (auto simp: pendingAt_Cons)
  qed
qed

lemma planInv_releaseHeldBatches:
  assumes "distinct (map stageId st)" and "planInv st jid Q bs rows"
    and "releaseHeldBatches jid st batch w bs rows = (rows', Inr bs')"
  shows "planInv st jid Q bs' rows'"
  using planInv_release_aux [OF assms(1) assms(3)] assms(2)
  unfolding planInv_def by auto

lemma planInv_processBatch:
  assumes "distinct (map stageId st)" and "i < length bs" and "planInv st jid Q bs rows"
    and "processBatch tz jid jb st i bs rows = (rows', Inr bs')"
  shows "planInv st jid Q bs' rows'"
proof -
  from assms(4) obtain rows1 bs1 w where
    sb: "scheduleBatch tz jid jb st i bs rows = (rows1, Inr (bs1, w))"
    and rl: "releaseHeldBatches jid st (bs1 ! i) w bs1 rows1 = (rows', Inr bs')"
    by (auto simp: processBatch_def split: prod.splits sum.splits)
  from planInv_scheduleBatch [OF assms(1,2,3) sb] have "planInv st jid Q bs1 rows1" .
  from planInv_releaseHeldBatches [OF assms(1) this rl] show ?thesis .
qed

lemma planInv_forLoop:
  assumes "distinct (map stageId st)"
  shows "forLoop tz fuel jid jb st i bs rows = Some (rows', Inr bs') \<Longrightarrow> planInv st jid Q bs rows \<Longrightarrow>
           planInv st jid Q bs' rows'"
proof (induction fuel arbitrary: i bs rows)
  case 0
  then show ?case by (auto split: if_splits)
next
  case (Suc fuel)
  show ?case
  proof (cases "i < length bs")
    case False
    with Suc.prems show ?thesis by simp
  next
    case True
    show ?thesis
    proof (cases "held (bs ! i) \<or> schedulingCompleted (bs ! i)")
      case skip: True
      with True Suc.prems(1) have "forLoop tz fuel jid jb st (i + 1) bs rows = Some (rows', Inr bs')"
        by (simp add: Let_def)
      from Suc.IH [OF this Suc.prems(2)] show ?thesis .
    next
      case False
      obtain rows1 r where pb: "processBatch tz jid jb st i bs rows = (rows1, r)"
        by (cases "processBatch tz jid jb st i bs rows")
      show ?thesis
      proof (cases r)
        case (Inl e)
        with True False pb Suc.prems(1) show ?thesis by (simp add: Let_def)
      next
        case (Inr bs1)
        with True False pb Suc.prems(1)
        have rec: "forLoop tz fuel jid jb st (i + 1) bs1 rows1 = Some (rows', Inr bs')"
          by (simp add: Let_def)
        from pb Inr have "processBatch tz jid jb st i bs rows = (rows1, Inr bs1)" by simp
        from planInv_processBatch [OF assms True Suc.prems(2) this]
        have "planInv st jid Q bs1 rows1" .
        from Suc.IH [OF rec this] show ?thesis .
      qed
    qed
  qed
qed

lemma planInv_whileLoop:
  "whileLoop tz fuel jid jb st it bs rows = Some (rows', Inr it') \<Longrightarrow>
         planInv st jid Q bs rows \<Longrightarrow> distinct (map stageId st) \<Longrightarrow>
         \<exists>bs'. planInv st jid Q bs' rows' \<and>
               (list_all schedulingCompleted bs' \<or> maxIterations \<le> it')"
proof (induction tz fuel jid jb st it bs rows rule: whileLoop.induct)
  case (1 tz fuel jid jb st it bs rows)
  show ?case
  proof (cases "list_ex (\<lambda>b. \<not> schedulingCompleted b) bs \<and> it < maxIterations")
    case False
    with "1.prems"(1) have "rows' = rows" "it' = it" by (simp_all add: whileLoop_stop)
    moreover from False have "list_all schedulingCompleted bs \<or> maxIterations \<le> it"
      by (auto simp: list_all_iff list_ex_iff)
    ultimately show ?thesis using "1.prems"(2) by blast
  next
    case True
    show ?thesis
    proof (cases "forLoop tz fuel jid jb st 0 (sortBatches bs) rows")
      case None
      with True "1.prems"(1) show ?thesis by (simp add: whileLoop_step)
    next
      case (Some res)
      obtain rows1 x where res: "res = (rows1, x)" by (cases res)
      show ?thesis
      proof (cases x)
        case (Inl e)
        with True Some res "1.prems"(1) show ?thesis by (simp add: whileLoop_step)
      next
        case (Inr bs1)
        show ?thesis
        proof (cases "it + 1 > 10")
          case True
          with \<open>list_ex _ bs \<and> _\<close> Some res Inr "1.prems"(1) show ?thesis
            by (simp add: whileLoop_step)
        next
          case False
          have rec: "whileLoop tz fuel jid jb st (it + 1) bs1 rows1 = Some (rows', Inr it')"
            using True False Some res Inr "1.prems"(1) by (simp add: whileLoop_step)
          have "forLoop tz fuel jid jb st 0 (sortBatches bs) rows = Some (rows1, Inr bs1)"
            using Some res Inr by simp
          from planInv_forLoop [OF "1.prems"(3) this planInv_sortBatches [OF "1.prems"(2)]]
          have inv1: "planInv st jid Q bs1 rows1" .
          from "1.IH" [OF True refl refl Some res [symmetric] Inr _ rec inv1 "1.prems"(3)] False
          show ?thesis by simp
        qed
      qed
    qed
  qed
qed


lemma planInv_initial:
  "planInv st jid (totalSamples jb) [initialBatch jb] (filter (\<lambda>r. sch_jobId r \<noteq> jid) rows)"
proof -
  have f: "filter (\<lambda>r. sch_jobId r = jid) (filter (\<lambda>r. sch_jobId r \<noteq> jid) rows) = []"
    by (induction rows) auto
  have z: "stageTotal jid s (filter (\<lambda>r. sch_jobId r \<noteq> jid) rows) = 0" for s
    unfolding stageTotal_def by (induction rows) auto
  have p: "nextStageIndexOf st (initialBatch jb) = 0"
    by (simp add: nextStageIndexOf_cases initialBatch_def)
  show ?thesis
    by (simp add: planInv_def keysUnique_def f z pendingAt_def p) (simp add: initialBatch_def)
qed

lemma planInv_completed_total:
  assumes "planInv st jid Q bs rows" and "list_all schedulingCompleted bs" and "k < length st"
  shows "stageTotal jid (stageId (st ! k)) rows = Q"
proof -
  from assms(1,2) have "\<And>b. b \<in> set bs \<Longrightarrow> nextStageIndexOf st b = int (length st)"
    by (auto simp: planInv_def list_all_iff)
  then have "\<And>b. b \<in> set bs \<Longrightarrow> (if nextStageIndexOf st b \<le> int k then qty b else 0) = 0"
    using assms(3) by simp
  then have "pendingAt st (int k) bs = 0"
    unfolding pendingAt_def by (simp add: sum_list_0 cong: map_cong)
  moreover from assms(1,3)
  have "stageTotal jid (stageId (st ! k)) rows + pendingAt st (int k) bs = Q"
    by (simp add: planInv_def)
  ultimately show ?thesis by simp
qed

text \<open>
  C2, as the code has it. When \<^verbatim>\<open>autoPlanJob\<close> returns without error for a job whose
  pipeline has pairwise distinct stage ids (every stage is linked to the activity type
  at most once), the job's rows of every stage of the pipeline sum, over all weeks, to
  the job's \<^verbatim>\<open>totalSamples\<close>. This holds with and without holds in the pipeline.
\<close>

theorem conservation:
  assumes "autoPlanJob tz fuel d jobId = Some (d', Inr ())"
    and "getJob d jobId = Some jb"
    and "find (\<lambda>a. at_name a = activityType jb) (activityTypes d) = Some a"
    and "distinct (map stageId (loadJobStages d (at_id a)))"
    and "s \<in> stageId ` set (loadJobStages d (at_id a))"
  shows "stageTotal jobId s (schedules d') = totalSamples jb"
proof -
  let ?st = "loadJobStages d (at_id a)"
  let ?cleared = "filter (\<lambda>r. sch_jobId r \<noteq> jobId) (schedules d)"
  from assms(1,2,3) obtain rows it where
    run: "whileLoop tz fuel jobId jb ?st 0 [initialBatch jb] ?cleared = Some (rows, Inr it)"
    and it: "\<not> maxIterations \<le> it" and d': "d' = d\<lparr>schedules := rows\<rparr>"
    by (auto simp: autoPlanJob_def Let_def split: option.splits if_splits prod.splits sum.splits)
  from planInv_whileLoop [OF run planInv_initial assms(4)] it
  obtain bs' where inv: "planInv ?st jobId (totalSamples jb) bs' rows"
    and fin: "list_all schedulingCompleted bs'" by auto
  from assms(5) obtain k where k: "k < length ?st" and s: "s = stageId (?st ! k)"
    by (auto simp: in_set_conv_nth)
  from planInv_completed_total [OF inv fin k] s d' show ?thesis by simp
qed

text \<open>The worked example: Stage 2 gets 2 samples in one week and 13 in another.\<close>

theorem conservation_witness:
  "autoPlanJob 0 2 (workedExample 20241) 1 =
     Some ((workedExample 20241)\<lparr>schedules := workedExamplePlan 20241\<rparr>, Inr ()) \<and>
   distinct (map stageId (loadJobStages (workedExample 20241) 1)) \<and>
   stageTotal 1 2 (workedExamplePlan 20241) = 15"
proof -
  have m: "getDay 20241 = 1" by (simp add: getDay_def)
  have y: "99 < getFullYear 20241" by (simp add: getFullYear_2025)
  have z: "(0::int) \<le> 0" "0 < msPerDay" by (simp_all add: msPerDay_def)
  have two: "(2::nat) \<le> 2" by simp
  have run: "autoPlanJob 0 2 (workedExample 20241) 1 =
     Some ((workedExample 20241)\<lparr>schedules := workedExamplePlan 20241\<rparr>, Inr ())"
    using worked_example_east_of_utc [OF m y z two] by simp
  have j: "getJob (workedExample 20241) 1 = Some (exJob 20241)"
    by (simp add: getJob_def workedExample_def exJob_def)
  have a: "find (\<lambda>a. at_name a = activityType (exJob 20241))
             (activityTypes (workedExample 20241)) = Some \<lparr>at_id = 1, at_name = ''TEST''\<rparr>"
    by (simp add: workedExample_def exJob_def)
  have l: "loadJobStages (workedExample 20241) 1 = pipe5"
    using load5 [where a = 20241 and old = "[]"] by (simp add: workedExample_def)
  have dist: "distinct (map stageId (loadJobStages (workedExample 20241)
                (at_id \<lparr>at_id = 1, at_name = ''TEST''\<rparr>)))"
    by (simp add: l pipe5_def exPipe_def)
  have mem: "2 \<in> stageId ` set (loadJobStages (workedExample 20241)
                (at_id \<lparr>at_id = 1, at_name = ''TEST''\<rparr>))"
    by (simp add: l pipe5_def exPipe_def)
  from conservation [OF run j a dist mem] run dist show ?thesis
    by (simp add: exJob_def)
qed

text \<open>
  C2 as stated fails when a stage is linked twice. In \<open>duplicateLinkDb\<close> the only stage
  has two link rows, so the pipeline holds it twice; the call returns without error and
  the stage's rows sum to 30 for a job of 15 samples.
\<close>

lemma loadDup: "loadJobStages duplicateLinkDb 1 =
    [exPipe 1 5 None None, \<lparr>js_id = 2, stageId = 1, processingTimeDays = 5, stage = exStage 1 None None\<rparr>]"
  by (simp add: loadJobStages_def duplicateLinkDb_def exStage_def exLink_def exPipe_def)

lemma duplicate_loop:
  assumes "dateOfString tz a = d" "addBusinessDays d 5 = d2" "getWeekStart d \<noteq> getWeekStart d2"
  shows "whileLoop tz (Suc 0) 1 (exJob a)
           [exPipe 1 5 None None,
            \<lparr>js_id = 2, stageId = 1, processingTimeDays = 5, stage = exStage 1 None None\<rparr>]
           0 [initialBatch (exJob a)] [] =
     Some ([exRow 1 (getWeekStart d) 15, exRow 1 (getWeekStart d2) 15], Inr 2)"
  using assms
  by (simp add: whileLoop.simps initialBatch_def sortBatches_def maxIterations_def
        processBatch_def scheduleBatch_def exPipe_def exStage_def at_def exJob_def Let_def
        scheduleQuantityForWeek_def sameKey_def exRow_def)

theorem duplicate_link_counterexample:
  "autoPlanJob 0 1 duplicateLinkDb 1 =
     Some (duplicateLinkDb\<lparr>schedules :=
             [exRow 1 ''2025-06-02'' 15, exRow 1 ''2025-06-09'' 15]\<rparr>, Inr ()) \<and>
   getJob duplicateLinkDb 1 = Some (exJob 20241) \<and>
   totalSamples (exJob 20241) = 15 \<and>
   stageTotal 1 1 [exRow 1 ''2025-06-02'' 15, exRow 1 ''2025-06-09'' 15] = 30"
proof -
  have m: "getDay 20241 = 1" by (simp add: getDay_def)
  have ab: "addBusinessDays 20241 5 = 20248"
    using addBusinessDays_monday_5 [OF m] by simp
  have ds: "dateOfString 0 20241 = 20241"
    using dateOfString_east [of 0 20241] by (simp add: msPerDay_def)
  have ne: "getWeekStart 20241 \<noteq> getWeekStart 20248" by (simp add: getWeekStart_2025)
  have j: "getJob duplicateLinkDb 1 = Some (exJob 20241)"
    by (simp add: getJob_def duplicateLinkDb_def exJob_def)
  have a: "find (\<lambda>a. at_name a = activityType (exJob 20241)) (activityTypes duplicateLinkDb) =
             Some \<lparr>at_id = 1, at_name = ''TEST''\<rparr>"
    by (simp add: duplicateLinkDb_def exJob_def)
  have s: "schedules duplicateLinkDb = []" by (simp add: duplicateLinkDb_def)
  have run: "autoPlanJob 0 1 duplicateLinkDb 1 =
     Some (duplicateLinkDb\<lparr>schedules :=
             [exRow 1 ''2025-06-02'' 15, exRow 1 ''2025-06-09'' 15]\<rparr>, Inr ())"
    by (simp add: autoPlanJob_def j a loadDup s duplicate_loop [OF ds ab ne] getWeekStart_2025
          maxIterations_def)
  have t: "stageTotal 1 1 [exRow 1 ''2025-06-02'' 15, exRow 1 ''2025-06-09'' 15] = 30"
    by (simp add: stageTotal_def exRow_def)
  from run j t show ?thesis by (simp add: exJob_def)
qed

section \<open>The rows of other jobs\<close>







section \<open>The plan of a job\<close>

text \<open>
  The rows of other jobs stay in front, in their order, and the planner neither reads
  nor changes them: a run on rows that start with rows of other jobs is the run on the
  remaining rows, with those in front of its result.
\<close>

lemma scheduleQuantityForWeek_prefix:
  assumes "\<forall>r \<in> set others. sch_jobId r \<noteq> jid"
  shows "scheduleQuantityForWeek jid s w q (others @ rows) =
           others @ scheduleQuantityForWeek jid s w q rows"
proof -
  have f: "filter (sameKey jid s w) others = []"
    using assms by (auto simp: filter_empty_conv sameKey_def)
  have m: "map (\<lambda>r. if sameKey jid s w r then g r else r) others = others" for g
    using assms by (induction others) (auto simp: sameKey_def)
  show ?thesis
    by (simp add: scheduleQuantityForWeek_def f m split: list.splits)
qed

lemma scheduleBatch_prefix:
  assumes "\<forall>r \<in> set others. sch_jobId r \<noteq> jid"
  shows "scheduleBatch tz jid jb st i bs (others @ rows) =
           (case scheduleBatch tz jid jb st i bs rows of (rows', x) \<Rightarrow> (others @ rows', x))"
  by (simp add: scheduleBatch_def Let_def scheduleQuantityForWeek_prefix [OF assms]
           split: option.splits)

lemma releaseHeldBatches_prefix:
  assumes "\<forall>r \<in> set others. sch_jobId r \<noteq> jid"
  shows "releaseHeldBatches jid st b w bs (others @ rows) =
           (case releaseHeldBatches jid st b w bs rows of (rows', x) \<Rightarrow> (others @ rows', x))"
proof (induction bs arbitrary: rows)
  case Nil
  show ?case by simp
next
  case (Cons hb rest)
  show ?case
    by (simp add: Let_def scheduleQuantityForWeek_prefix [OF assms] Cons.IH
             split: option.splits prod.splits sum.splits)
qed

lemma processBatch_prefix:
  assumes "\<forall>r \<in> set others. sch_jobId r \<noteq> jid"
  shows "processBatch tz jid jb st i bs (others @ rows) =
           (case processBatch tz jid jb st i bs rows of (rows', x) \<Rightarrow> (others @ rows', x))"
  by (simp add: processBatch_def scheduleBatch_prefix [OF assms]
        releaseHeldBatches_prefix [OF assms] split: prod.splits sum.splits)

lemma forLoop_prefix:
  assumes "\<forall>r \<in> set others. sch_jobId r \<noteq> jid"
  shows "forLoop tz fuel jid jb st i bs (others @ rows) =
           map_option (\<lambda>(rows', x). (others @ rows', x)) (forLoop tz fuel jid jb st i bs rows)"
proof (induction fuel arbitrary: i bs rows)
  case 0
  show ?case by simp
next
  case (Suc fuel)
  show ?case
    by (simp add: Let_def processBatch_prefix [OF assms] Suc.IH split: prod.splits sum.splits)
qed

lemma whileLoop_prefix:
  assumes "\<forall>r \<in> set others. sch_jobId r \<noteq> jid"
  shows "whileLoop tz fuel jid jb st it bs (others @ rows) =
           map_option (\<lambda>(rows', x). (others @ rows', x)) (whileLoop tz fuel jid jb st it bs rows)"
  using assms
proof (induction tz fuel jid jb st it bs rows rule: whileLoop.induct)
  case (1 tz fuel jid jb st it bs rows)
  note o = "1.prems"
  show ?case
  proof (cases "list_ex (\<lambda>b. \<not> schedulingCompleted b) bs \<and> it < maxIterations")
    case False
    then show ?thesis by (simp add: whileLoop_stop)
  next
    case True
    show ?thesis
    proof (cases "forLoop tz fuel jid jb st 0 (sortBatches bs) rows")
      case None
      with True show ?thesis by (simp add: whileLoop_step forLoop_prefix [OF o])
    next
      case (Some res)
      obtain rows1 x where res: "res = (rows1, x)" by (cases res)
      show ?thesis
      proof (cases x)
        case (Inl e)
        with True Some res show ?thesis by (simp add: whileLoop_step forLoop_prefix [OF o])
      next
        case (Inr bs1)
        show ?thesis
        proof (cases "it + 1 > 10")
          case True
          with \<open>list_ex _ bs \<and> _\<close> Some res Inr show ?thesis
            by (simp add: whileLoop_step forLoop_prefix [OF o])
        next
          case False
          from "1.IH" [OF True refl refl Some res [symmetric] Inr _ o] False
          have "whileLoop tz fuel jid jb st (it + 1) bs1 (others @ rows1) =
                  map_option (\<lambda>(rows', x). (others @ rows', x))
                    (whileLoop tz fuel jid jb st (it + 1) bs1 rows1)"
            by simp
          with True False Some res Inr show ?thesis
            by (simp add: whileLoop_step forLoop_prefix [OF o])
        qed
      qed
    qed
  qed
qed

text \<open>
  Of the job, the planner reads the quantity (for the first batch) and the arrival date
  only.
\<close>

lemma scheduleBatch_job:
  "materialArrivesDate jb = materialArrivesDate jb' \<Longrightarrow>
     scheduleBatch tz jid jb st i bs rows = scheduleBatch tz jid jb' st i bs rows"
  by (auto simp: scheduleBatch_def Let_def split: option.splits)

lemma processBatch_job:
  "materialArrivesDate jb = materialArrivesDate jb' \<Longrightarrow>
     processBatch tz jid jb st i bs rows = processBatch tz jid jb' st i bs rows"
  by (simp add: processBatch_def scheduleBatch_job [of jb jb'])

lemma forLoop_job:
  assumes "materialArrivesDate jb = materialArrivesDate jb'"
  shows "forLoop tz fuel jid jb st i bs rows = forLoop tz fuel jid jb' st i bs rows"
proof (induction fuel arbitrary: i bs rows)
  case 0
  show ?case by simp
next
  case (Suc fuel)
  show ?case
    by (simp add: Let_def processBatch_job [OF assms] Suc.IH split: prod.splits sum.splits)
qed

lemma whileLoop_job:
  assumes "materialArrivesDate jb = materialArrivesDate jb'"
  shows "whileLoop tz fuel jid jb st it bs rows = whileLoop tz fuel jid jb' st it bs rows"
  using assms
proof (induction tz fuel jid jb st it bs rows rule: whileLoop.induct)
  case (1 tz fuel jid jb st it bs rows)
  note fl = forLoop_job [OF "1.prems", of tz fuel jid st]
  show ?case
  proof (cases "list_ex (\<lambda>b. \<not> schedulingCompleted b) bs \<and> it < maxIterations")
    case False
    then show ?thesis by (simp add: whileLoop_stop)
  next
    case True
    show ?thesis
    proof (cases "forLoop tz fuel jid jb st 0 (sortBatches bs) rows")
      case None
      with True fl [of 0 "sortBatches bs" rows] show ?thesis by (simp add: whileLoop_step)
    next
      case (Some res)
      obtain rows1 x where res: "res = (rows1, x)" by (cases res)
      show ?thesis
      proof (cases x)
        case (Inl e)
        with True Some res fl [of 0 "sortBatches bs" rows] show ?thesis
          by (simp add: whileLoop_step)
      next
        case (Inr bs1)
        show ?thesis
        proof (cases "it + 1 > 10")
          case True
          with \<open>list_ex _ bs \<and> _\<close> Some res Inr fl [of 0 "sortBatches bs" rows] show ?thesis
            by (simp add: whileLoop_step)
        next
          case False
          from "1.IH" [OF True refl refl Some res [symmetric] Inr _ "1.prems"] False
          have "whileLoop tz fuel jid jb st (it + 1) bs1 rows1 =
                  whileLoop tz fuel jid jb' st (it + 1) bs1 rows1"
            by simp
          with True False Some res Inr fl [of 0 "sortBatches bs" rows] show ?thesis
            by (simp add: whileLoop_step)
        qed
      qed
    qed
  qed
qed

lemma getJob_id: "getJob d jobId = Some jb \<Longrightarrow> job_id jb = jobId"
  by (auto simp: getJob_def find_Some_iff)

text \<open>
  Once the job, its activity type and a stage are found, the call deletes the job's
  rows and stores the plan of the job after the rows of the other jobs.
\<close>

lemma autoPlanJob_result:
  assumes "getJob d jobId = Some jb"
    and "find (\<lambda>a. at_name a = activityType jb) (activityTypes d) = Some a"
    and "loadJobStages d (at_id a) \<noteq> []"
  shows "autoPlanJob tz fuel d jobId =
           map_option
             (\<lambda>(plan, r). (d\<lparr>schedules := filter (\<lambda>x. sch_jobId x \<noteq> jobId) (schedules d) @ plan\<rparr>, r))
             (planOf tz fuel jobId (totalSamples jb) (materialArrivesDate jb)
                (loadJobStages d (at_id a)))"
proof -
  let ?st = "loadJobStages d (at_id a)"
  let ?cleared = "filter (\<lambda>x. sch_jobId x \<noteq> jobId) (schedules d)"
  let ?jb = "\<lparr>job_id = jobId, job_name = [], activityType = [],
              totalSamples = totalSamples jb, materialArrivesDate = materialArrivesDate jb,
              deadlineDate = materialArrivesDate jb\<rparr>"
  have o: "\<forall>r \<in> set ?cleared. sch_jobId r \<noteq> jobId" by simp
  have ib: "initialBatch ?jb = initialBatch jb" by (simp add: initialBatch_def)
  have "whileLoop tz fuel jobId jb ?st 0 [initialBatch jb] (?cleared @ []) =
          map_option (\<lambda>(rows', x). (?cleared @ rows', x))
            (whileLoop tz fuel jobId jb ?st 0 [initialBatch jb] [])"
    by (rule whileLoop_prefix [OF o])
  also have "whileLoop tz fuel jobId jb ?st 0 [initialBatch jb] [] =
               whileLoop tz fuel jobId ?jb ?st 0 [initialBatch ?jb] []"
    unfolding ib by (rule whileLoop_job) simp
  finally have w: "whileLoop tz fuel jobId jb ?st 0 [initialBatch jb] ?cleared =
          map_option (\<lambda>(rows', x). (?cleared @ rows', x))
            (whileLoop tz fuel jobId ?jb ?st 0 [initialBatch ?jb] [])"
    by simp
  show ?thesis
    using assms(3)
    by (simp add: autoPlanJob_def assms(1,2) Let_def w planOf_def
             split: option.splits prod.splits sum.splits)
qed


section \<open>Planning again\<close>



section \<open>Failed calls\<close>

lemma load2: "loadJobStages neverReleasedDb 1 = pipe2"
  by (simp add: loadJobStages_def neverReleasedDb_def exStage_def exLink_def exPipe_def pipe2_def)

lemma never_released_loop:
  assumes "dateOfString tz a = d" "addBusinessDays d 5 = d2"
  shows "whileLoop tz (Suc (Suc 0)) 1 (exJob a) pipe2 0 [initialBatch (exJob a)] [] =
     Some ([exRow 1 (getWeekStart d) 15, exRow 2 (getWeekStart d2) 2], Inl Deadlock)"
  using assms
  by (simp add: whileLoop.simps initialBatch_def sortBatches_def maxIterations_def
        processBatch_def scheduleBatch_def pipe2_def exPipe_def exStage_def at_def exJob_def Let_def
        scheduleQuantityForWeek_def sameKey_def exRow_def)

text \<open>
  In \<open>neverReleasedDb\<close> the remainder held at Stage 2 is never released, and the call
  throws the deadlock error at the end of iteration 11.
\<close>

lemma never_released_run:
  "autoPlanJob 0 2 neverReleasedDb 1 =
     Some (neverReleasedDb\<lparr>schedules :=
             [exRow 1 ''2025-06-02'' 15, exRow 2 ''2025-06-09'' 2]\<rparr>, Inl Deadlock)"
proof -
  have m: "getDay 20241 = 1" by (simp add: getDay_def)
  have ds: "dateOfString 0 20241 = 20241"
    using dateOfString_east [of 0 20241] by (simp add: msPerDay_def)
  have ab: "addBusinessDays 20241 5 = 20248"
    using addBusinessDays_monday_5 [OF m] by simp
  have j: "getJob neverReleasedDb 1 = Some (exJob 20241)"
    by (simp add: getJob_def neverReleasedDb_def exJob_def)
  have a: "find (\<lambda>a. at_name a = activityType (exJob 20241)) (activityTypes neverReleasedDb) =
             Some \<lparr>at_id = 1, at_name = ''TEST''\<rparr>"
    by (simp add: neverReleasedDb_def exJob_def)
  have s: "schedules neverReleasedDb = [exRow 1 ''2025-05-26'' 15]"
    by (simp add: neverReleasedDb_def)
  have c: "filter (\<lambda>r. sch_jobId r \<noteq> 1) (schedules neverReleasedDb) = []"
    by (simp add: s exRow_def)
  show ?thesis
    by (simp add: autoPlanJob_def j a load2 c never_released_loop [OF ds ab] getWeekStart_2025
          numeral_2_eq_2)
       (simp add: pipe2_def)
qed

text \<open>
  The loop never returns with more than 10 iterations: from iteration 11 on, the deadlock
  check throws. So the error for 100 iterations is never thrown.
\<close>

lemma whileLoop_iterations:
  "whileLoop tz fuel jid jb st it bs rows = Some (rows', Inr n) \<Longrightarrow> it \<le> 10 \<Longrightarrow> n \<le> 10"
proof (induction tz fuel jid jb st it bs rows rule: whileLoop.induct)
  case (1 tz fuel jid jb st it bs rows)
  show ?case
  proof (cases "list_ex (\<lambda>b. \<not> schedulingCompleted b) bs \<and> it < maxIterations")
    case False
    with "1.prems" show ?thesis by (simp add: whileLoop_stop)
  next
    case True
    show ?thesis
    proof (cases "forLoop tz fuel jid jb st 0 (sortBatches bs) rows")
      case None
      with True "1.prems" show ?thesis by (simp add: whileLoop_step)
    next
      case (Some res)
      obtain rows1 x where res: "res = (rows1, x)" by (cases res)
      show ?thesis
      proof (cases x)
        case (Inl e)
        with True Some res "1.prems" show ?thesis by (simp add: whileLoop_step)
      next
        case (Inr bs1)
        show ?thesis
        proof (cases "it + 1 > 10")
          case True
          with \<open>list_ex _ bs \<and> _\<close> Some res Inr "1.prems" show ?thesis
            by (simp add: whileLoop_step)
        next
          case False
          have rec: "whileLoop tz fuel jid jb st (it + 1) bs1 rows1 = Some (rows', Inr n)"
            using True False Some res Inr "1.prems" by (simp add: whileLoop_step)
          from "1.IH" [OF True refl refl Some res [symmetric] Inr _ rec] False
          show ?thesis by simp
        qed
      qed
    qed
  qed
qed

text \<open>
  C7, as the code has it. The errors for a missing activity type and for an activity
  type without stages are thrown before the job's rows are deleted: the database after
  the call is the database before it. The deadlock error is thrown after the job's rows
  were deleted and while rows of the new plan are written, and nothing is rolled back:
  the database after the call holds the rows of the other jobs, unchanged, followed by
  the rows that the plan of the job had reached when the error was thrown, whatever
  rows the job had before the call. The error for 100 iterations is never thrown.
\<close>

theorem autoPlanJob_early_errors_keep_rows:
  assumes "autoPlanJob tz fuel d jobId = Some (d', Inl e)"
  shows "(e = ActivityTypeNotFound n \<or> e = NoStagesFound n \<longrightarrow> d' = d) \<and>
         e \<noteq> MaxIterationsExceeded \<and>
         (e = Deadlock \<longrightarrow>
            (\<exists>jb a plan.
               getJob d jobId = Some jb \<and>
               find (\<lambda>a. at_name a = activityType jb) (activityTypes d) = Some a \<and>
               planOf tz fuel jobId (totalSamples jb) (materialArrivesDate jb)
                 (loadJobStages d (at_id a)) = Some (plan, Inl Deadlock) \<and>
               d' = d\<lparr>schedules :=
                       filter (\<lambda>x. sch_jobId x \<noteq> jobId) (schedules d) @ plan\<rparr>))"
proof -
  have early: "d' = d" if "e = ActivityTypeNotFound n \<or> e = NoStagesFound n"
  proof -
    have "e \<noteq> TypeError" "e \<noteq> Deadlock" "e \<noteq> MaxIterationsExceeded"
      using that by auto
    with assms show ?thesis
      unfolding autoPlanJob_def
      by (auto simp: Let_def split: option.splits if_splits prod.splits sum.splits
               dest: whileLoop_error)
  qed
  have late: "\<exists>jb a plan.
               getJob d jobId = Some jb \<and>
               find (\<lambda>a. at_name a = activityType jb) (activityTypes d) = Some a \<and>
               planOf tz fuel jobId (totalSamples jb) (materialArrivesDate jb)
                 (loadJobStages d (at_id a)) = Some (plan, Inl Deadlock) \<and>
               d' = d\<lparr>schedules :=
                       filter (\<lambda>x. sch_jobId x \<noteq> jobId) (schedules d) @ plan\<rparr>"
    if "e = Deadlock"
  proof -
    from assms that obtain jb a where
      j: "getJob d jobId = Some jb"
      and a: "find (\<lambda>a. at_name a = activityType jb) (activityTypes d) = Some a"
      and l: "loadJobStages d (at_id a) \<noteq> []"
      by (auto simp: autoPlanJob_def Let_def split: option.splits if_splits)
    from assms autoPlanJob_result [OF j a l, of tz fuel] that j a show ?thesis
      by auto
  qed
  have never: "e \<noteq> MaxIterationsExceeded"
  proof
    assume "e = MaxIterationsExceeded"
    with assms obtain jb st cleared rows it where
      "whileLoop tz fuel jobId jb st 0 [initialBatch jb] cleared = Some (rows, Inr it)"
      and "maxIterations \<le> it"
      unfolding autoPlanJob_def
      by (auto simp: Let_def split: option.splits if_splits prod.splits sum.splits
               dest: whileLoop_error)
    with whileLoop_iterations [of tz fuel jobId jb st 0 "[initialBatch jb]" cleared rows it]
    show False by (simp add: maxIterations_def)
  qed
  from early late never show ?thesis by blast
qed

text \<open>
  A job whose activity type does not exist: the earlier row of the job stays. And the
  failed call of \<open>neverReleasedDb\<close>: the two rows written before the error are stored.
\<close>

theorem autoPlanJob_early_errors_keep_rows_witness:
  "autoPlanJob 0 2 unknownActivityDb 1 =
     Some (unknownActivityDb, Inl (ActivityTypeNotFound ''NONEXISTENT'')) \<and>
   schedules unknownActivityDb = [exRow 1 ''2025-05-26'' 15] \<and>
   autoPlanJob 0 2 neverReleasedDb 1 =
     Some (neverReleasedDb\<lparr>schedules :=
             [exRow 1 ''2025-06-02'' 15, exRow 2 ''2025-06-09'' 2]\<rparr>, Inl Deadlock) \<and>
   (\<exists>plan. planOf 0 2 1 15 20241 pipe2 = Some (plan, Inl Deadlock))"
proof -
  have run: "autoPlanJob 0 2 unknownActivityDb 1 =
     Some (unknownActivityDb, Inl (ActivityTypeNotFound ''NONEXISTENT''))"
    by (simp add: autoPlanJob_def getJob_def unknownActivityDb_def exJob_def)
  have j: "getJob neverReleasedDb 1 = Some (exJob 20241)"
    by (simp add: getJob_def neverReleasedDb_def exJob_def)
  have a: "find (\<lambda>a. at_name a = activityType (exJob 20241)) (activityTypes neverReleasedDb) =
             Some \<lparr>at_id = 1, at_name = ''TEST''\<rparr>"
    by (simp add: neverReleasedDb_def exJob_def)
  from autoPlanJob_early_errors_keep_rows [OF never_released_run] j a
  have "\<exists>plan. planOf 0 2 1 15 20241 pipe2 = Some (plan, Inl Deadlock)"
    by (auto simp: load2 exJob_def)
  with autoPlanJob_early_errors_keep_rows [OF run, of "''NONEXISTENT''"] run never_released_run
  show ?thesis
    by (simp add: unknownActivityDb_def)
qed

text \<open>
  C7 as stated fails for the deadlock error. Before the failed call of \<open>neverReleasedDb\<close>
  the job has one row, for the week of 2025-05-26; after it that row is deleted and two
  new rows are stored.
\<close>

theorem deadlock_leaves_partial_rows_counterexample:
  "autoPlanJob 0 2 neverReleasedDb 1 =
     Some (neverReleasedDb\<lparr>schedules :=
             [exRow 1 ''2025-06-02'' 15, exRow 2 ''2025-06-09'' 2]\<rparr>, Inl Deadlock) \<and>
   schedules neverReleasedDb = [exRow 1 ''2025-05-26'' 15] \<and>
   [exRow 1 ''2025-06-02'' 15, exRow 2 ''2025-06-09'' 2] \<noteq> schedules neverReleasedDb"
  using never_released_run by (simp add: neverReleasedDb_def exRow_def)

end
